theory Spec2Isabelle
  imports Main "HOL-Library.Multiset"
begin

section \<open>JavaScript arrays of numbers\<close>

text \<open>
  The sorting generators of \<^verbatim>\<open>sorting-visualizer.mdx\<close> work in place on one
  \<^verbatim>\<open>number[]\<close>. What such an array holds at an index is

  \<^item> \<open>Num x\<close>, a number other than \<^verbatim>\<open>NaN\<close>. These numbers are the values of a
    linearly ordered type \<open>'a\<close>: the order is all that the generators use of them.
    The doubles other than \<^verbatim>\<open>NaN\<close>, the two infinities included, are such a type
    (\<^verbatim>\<open>-0\<close> and \<^verbatim>\<open>+0\<close>, which no comparison tells apart, taken as one value), and
    so are the integers, which is what \<^verbatim>\<open>makeRandomArray\<close> produces;
  \<^item> \<open>NaN\<close>, the number \<^verbatim>\<open>NaN\<close>, which the type \<^verbatim>\<open>number\<close> admits;
  \<^item> \<open>Undefined\<close>, the value \<^verbatim>\<open>undefined\<close> of a hole and of a read outside the array.

  \<^item> \<open>aget arr k\<close> is \<^verbatim>\<open>arr[k]\<close>: \<^verbatim>\<open>undefined\<close> outside \<open>0 .. length - 1\<close>.
  \<^item> \<open>aset arr k v\<close> is \<^verbatim>\<open>arr[k] = v\<close>: inside the array it overwrites, at or
    past the end it extends the array (holes in between). A negative \<open>k\<close> names an
    ordinary property of the array object and leaves length and elements as they are;
    such properties are not tracked, so a later read at that negative index gives
    \<^verbatim>\<open>undefined\<close> here. The runs with default bounds, which the component starts,
    read and write inside the array only.
  \<^item> \<open>js_gt\<close>, \<open>js_le\<close> are \<^verbatim>\<open>>\<close> and \<^verbatim>\<open><=\<close>: the order of \<open>'a\<close> between two
    numbers, and false as soon as one side is \<^verbatim>\<open>NaN\<close> or \<^verbatim>\<open>undefined\<close> (which
    the comparison converts to \<^verbatim>\<open>NaN\<close>).
  \<^item> \<open>Intg\<close> is \<open>Num\<close> on the integers; the concrete arrays below are written with it.
\<close>

datatype 'a jsnum = Num (the_num: 'a) | NaN | Undefined

type_synonym 'a jsarray = "'a jsnum list"

abbreviation Intg :: "int \<Rightarrow> int jsnum" where
  "Intg \<equiv> Num"

definition aget :: "'a jsarray \<Rightarrow> int \<Rightarrow> 'a jsnum" where
  "aget arr k = (if 0 \<le> k \<and> k < int (length arr) then arr ! nat k else Undefined)"

definition aset :: "'a jsarray \<Rightarrow> int \<Rightarrow> 'a jsnum \<Rightarrow> 'a jsarray" where
  "aset arr k v =
     (if k < 0 then arr
      else if k < int (length arr) then arr[nat k := v]
      else arr @ replicate (nat k - length arr) Undefined @ [v])"

definition js_gt :: "'a::linorder jsnum \<Rightarrow> 'a jsnum \<Rightarrow> bool" where
  "js_gt a b = (case (a, b) of (Num x, Num y) \<Rightarrow> x > y | _ \<Rightarrow> False)"

definition js_le :: "'a::linorder jsnum \<Rightarrow> 'a jsnum \<Rightarrow> bool" where
  "js_le a b = (case (a, b) of (Num x, Num y) \<Rightarrow> x \<le> y | _ \<Rightarrow> False)"

section \<open>The step model and the generator protocol\<close>

text \<open>
  \<^verbatim>\<open>type StepState = { result: number[]; colors?: Record<number, string> }\<close>.
  \<open>colors = None\<close> is a StepState without the optional property.
  \<^verbatim>\<open>result\<close> aliases the live array; a step records the contents the array has
  when the step is handed to the consumer, which is what the consumer renders.

  A call of a generator function, run to its end, is a \<open>run\<close>: the values it
  yields in order, the value it returns, and the contents of the array afterwards
  (the caller shares the array, so it sees them).
\<close>

record 'a StepState =
  result :: "'a jsarray"
  colors :: "(int \<rightharpoonup> string) option"

record 'a run =
  yields :: "'a StepState list"
  ret :: "'a StepState"
  heap :: "'a jsarray"

section \<open>bubbleSort\<close>

text \<open>
  \<^verbatim>\<open>
  export function* bubbleSort(arr: number[]): SortingGenerator {
    for (let i = 0; i < arr.length; i++) {
      for (let j = 0; j < arr.length - i - 1; j++) {
        if (arr[j] > arr[j + 1]) {
          yield { result: arr, colors: { [j]: "yellow", [j + 1]: "green" } };
          const temp = arr[j]; arr[j] = arr[j + 1]; arr[j + 1] = temp;
          yield { result: arr, colors: { [j]: "green", [j + 1]: "yellow" } };
        } else {
          yield { result: arr, colors: { [j]: "yellow", [j + 1]: "yellow" } };
        }
      }
    }
    return { result: arr };
  }
  \<close>
  \<open>bubble_inner\<close> is the loop over \<open>j\<close> from its current value, \<open>bubble_outer\<close>
  the loop over \<open>i\<close>; each returns the steps it yields and the array it leaves.
\<close>

definition swap_adjacent :: "'a jsarray \<Rightarrow> nat \<Rightarrow> 'a jsarray" where
  "swap_adjacent arr j =
     (let temp = aget arr (int j);
          arr1 = aset arr (int j) (aget arr (int j + 1))
      in aset arr1 (int j + 1) temp)"

lemma length_swap_adjacent:
  "int j < int (length arr) - 1 \<Longrightarrow> length (swap_adjacent arr j) = length arr"
  by (simp add: swap_adjacent_def aset_def Let_def)

function bubble_inner :: "'a::linorder jsarray \<Rightarrow> nat \<Rightarrow> nat \<Rightarrow> 'a StepState list \<times> 'a jsarray" where
  "bubble_inner arr i j =
     (if int j < int (length arr) - int i - 1 then
        (if js_gt (aget arr (int j)) (aget arr (int j + 1)) then
           let s1 = \<lparr>result = arr,
                     colors = Some [int j \<mapsto> ''yellow'', int j + 1 \<mapsto> ''green'']\<rparr>;
               arr' = swap_adjacent arr j;
               s2 = \<lparr>result = arr',
                     colors = Some [int j \<mapsto> ''green'', int j + 1 \<mapsto> ''yellow'']\<rparr>;
               (ys, arr'') = bubble_inner arr' i (j + 1)
           in (s1 # s2 # ys, arr'')
         else
           let s = \<lparr>result = arr,
                    colors = Some [int j \<mapsto> ''yellow'', int j + 1 \<mapsto> ''yellow'']\<rparr>;
               (ys, arr'') = bubble_inner arr i (j + 1)
           in (s # ys, arr''))
      else ([], arr))"
  by pat_completeness auto
termination
proof (relation "measure (\<lambda>(arr, i, j). length arr - j)")
  show "wf (measure (\<lambda>(arr, i, j). length arr - j))" by simp
next
  fix arr :: "'a::linorder jsarray" and i j :: nat and s1 :: "'a StepState" and arr' :: "'a jsarray"
  assume guard: "int j < int (length arr) - int i - 1" and "arr' = swap_adjacent arr j"
  then have "length arr' = length arr"
    by (simp add: length_swap_adjacent)
  with guard show "((arr', i, j + 1), (arr, i, j)) \<in> measure (\<lambda>(arr, i, j). length arr - j)"
    by simp
next
  fix arr :: "'a::linorder jsarray" and i j :: nat
  assume "int j < int (length arr) - int i - 1"
  then show "((arr, i, j + 1), (arr, i, j)) \<in> measure (\<lambda>(arr, i, j). length arr - j)"
    by simp
qed

declare bubble_inner.simps [simp del]

lemma length_bubble_inner: "length (snd (bubble_inner arr i j)) = length arr"
proof (induction arr i j rule: bubble_inner.induct)
  case (1 arr i j)
  show ?case
  proof (cases "int j < int (length arr) - int i - 1")
    case False
    then show ?thesis by (simp add: bubble_inner.simps [of arr i j])
  next
    case guard: True
    show ?thesis
    proof (cases "js_gt (aget arr (int j)) (aget arr (int j + 1))")
      case True
      have "length (snd (bubble_inner (swap_adjacent arr j) i (j + 1))) = length (swap_adjacent arr j)"
        using "1.IH"(1) [OF guard True refl refl refl] .
      with guard True show ?thesis
        by (simp add: bubble_inner.simps [of arr i j] Let_def split_beta length_swap_adjacent)
    next
      case False
      with guard "1.IH"(2) show ?thesis
        by (simp add: bubble_inner.simps [of arr i j] Let_def split_beta)
    qed
  qed
qed

function bubble_outer :: "'a::linorder jsarray \<Rightarrow> nat \<Rightarrow> 'a StepState list \<times> 'a jsarray" where
  "bubble_outer arr i =
     (if i < length arr then
        let (ys, arr') = bubble_inner arr i 0;
            (ys', arr'') = bubble_outer arr' (i + 1)
        in (ys @ ys', arr'')
      else ([], arr))"
  by pat_completeness auto
termination
proof (relation "measure (\<lambda>(arr, i). length arr - i)")
  show "wf (measure (\<lambda>(arr, i). length arr - i))" by simp
next
  fix arr :: "'a::linorder jsarray" and i :: nat and x :: "'a StepState list \<times> 'a jsarray"
    and ys :: "'a StepState list" and arr' :: "'a jsarray"
  assume "i < length arr" and "x = bubble_inner arr i 0" and "(ys, arr') = x"
  then have "length arr' = length arr"
    using length_bubble_inner [of arr i 0] by (metis snd_conv)
  with \<open>i < length arr\<close>
  show "((arr', i + 1), (arr, i)) \<in> measure (\<lambda>(arr, i). length arr - i)"
    by simp
qed

declare bubble_outer.simps [simp del]

definition bubbleSort :: "'a::linorder jsarray \<Rightarrow> 'a run" where
  "bubbleSort arr =
     (let (ys, arr') = bubble_outer arr 0
      in \<lparr>yields = ys, ret = \<lparr>result = arr', colors = None\<rparr>, heap = arr'\<rparr>)"

section \<open>merge and mergeSort\<close>

text \<open>
  \<^verbatim>\<open>
  export function* merge(arr: number[], i: number, middle: number, j: number): SortingGenerator {
    let left = i;
    let right = middle + 1;
    const sorted: number[] = [];
    function* push(index: number) {
      yield { result: arr, colors: { [middle]: "blue", [index]: "red" } };
      sorted.push(arr[index]);
    }
    while (left <= middle && right <= j) {
      if (arr[left] <= arr[right]) { yield* push(left); left++; }
      else { yield* push(right); right++; }
    }
    while (left <= middle) { yield* push(left); left++; }
    while (right <= j) { yield* push(right); right++; }
    for (let k = 0; k < sorted.length; k++) {
      yield { result: arr, colors: { [i + k]: "yellow" } };
      arr[i + k] = sorted[k];
    }
    return { result: arr };
  }
  \<close>
  The scratch array is called \<open>sorted'\<close> (\<open>sorted\<close> is a constant of HOL). The helper
  generator \<open>push\<close> returns its one step and the scratch array it leaves; each loop
  returns its steps and the variables it leaves. \<^verbatim>\<open>yield*\<close> appends the steps of the
  delegate, in order, to the steps of the caller, and drops the delegate's return value.
\<close>

definition push :: "'a jsarray \<Rightarrow> int \<Rightarrow> int \<Rightarrow> 'a jsarray \<Rightarrow> 'a StepState list \<times> 'a jsarray" where
  "push arr middle index sorted' =
     ([\<lparr>result = arr, colors = Some [middle \<mapsto> ''blue'', index \<mapsto> ''red'']\<rparr>],
      sorted' @ [aget arr index])"

function merge_while1 ::
  "'a::linorder jsarray \<Rightarrow> int \<Rightarrow> int \<Rightarrow> int \<Rightarrow> int \<Rightarrow> 'a jsarray \<Rightarrow> 'a StepState list \<times> int \<times> int \<times> 'a jsarray" where
  "merge_while1 arr middle j left right sorted' =
     (if left \<le> middle \<and> right \<le> j then
        (if js_le (aget arr left) (aget arr right) then
           let (ys, sorted1) = push arr middle left sorted';
               (ys', vars) = merge_while1 arr middle j (left + 1) right sorted1
           in (ys @ ys', vars)
         else
           let (ys, sorted1) = push arr middle right sorted';
               (ys', vars) = merge_while1 arr middle j left (right + 1) sorted1
           in (ys @ ys', vars))
      else ([], left, right, sorted'))"
  by pat_completeness auto
termination
  by (relation "measure (\<lambda>(arr, middle, j, left, right, sorted').
        nat (middle + 1 - left) + nat (j + 1 - right))") auto

function merge_while2 ::
  "'a jsarray \<Rightarrow> int \<Rightarrow> int \<Rightarrow> 'a jsarray \<Rightarrow> 'a StepState list \<times> int \<times> 'a jsarray" where
  "merge_while2 arr middle left sorted' =
     (if left \<le> middle then
        let (ys, sorted1) = push arr middle left sorted';
            (ys', vars) = merge_while2 arr middle (left + 1) sorted1
        in (ys @ ys', vars)
      else ([], left, sorted'))"
  by pat_completeness auto
termination
  by (relation "measure (\<lambda>(arr, middle, left, sorted'). nat (middle + 1 - left))") auto

function merge_while3 ::
  "'a jsarray \<Rightarrow> int \<Rightarrow> int \<Rightarrow> int \<Rightarrow> 'a jsarray \<Rightarrow> 'a StepState list \<times> int \<times> 'a jsarray" where
  "merge_while3 arr middle j right sorted' =
     (if right \<le> j then
        let (ys, sorted1) = push arr middle right sorted';
            (ys', vars) = merge_while3 arr middle j (right + 1) sorted1
        in (ys @ ys', vars)
      else ([], right, sorted'))"
  by pat_completeness auto
termination
  by (relation "measure (\<lambda>(arr, middle, j, right, sorted'). nat (j + 1 - right))") auto

function merge_for :: "'a jsarray \<Rightarrow> int \<Rightarrow> 'a jsarray \<Rightarrow> nat \<Rightarrow> 'a StepState list \<times> 'a jsarray" where
  "merge_for arr i sorted' k =
     (if k < length sorted' then
        let s = \<lparr>result = arr, colors = Some [i + int k \<mapsto> ''yellow'']\<rparr>;
            arr' = aset arr (i + int k) (sorted' ! k);
            (ys, arr'') = merge_for arr' i sorted' (k + 1)
        in (s # ys, arr'')
      else ([], arr))"
  by pat_completeness auto
termination
  by (relation "measure (\<lambda>(arr, i, sorted', k). length sorted' - k)") auto

declare merge_while1.simps [simp del] merge_while2.simps [simp del]
  merge_while3.simps [simp del] merge_for.simps [simp del]

definition merge :: "'a::linorder jsarray \<Rightarrow> int \<Rightarrow> int \<Rightarrow> int \<Rightarrow> 'a run" where
  "merge arr i middle j =
     (let (ys1, left, right, sorted1) = merge_while1 arr middle j i (middle + 1) [];
          (ys2, left, sorted2) = merge_while2 arr middle left sorted1;
          (ys3, right, sorted3) = merge_while3 arr middle j right sorted2;
          (ys4, arr') = merge_for arr i sorted3 0
      in \<lparr>yields = ys1 @ ys2 @ ys3 @ ys4,
          ret = \<lparr>result = arr', colors = None\<rparr>,
          heap = arr'\<rparr>)"

text \<open>
  \<^verbatim>\<open>
  export function* mergeSort(arr: number[], i = 0, j = arr.length - 1): SortingGenerator {
    const middle = Math.floor((j - i) / 2) + i;
    yield { result: arr, colors: { [i]: "yellow", [middle]: "blue", [j]: "green" } };
    if (j <= i) return { result: arr };
    yield* mergeSort(arr, i, middle);
    yield* mergeSort(arr, middle + 1, j);
    yield* merge(arr, i, middle, j);
    return { result: arr };
  }
  \<close>
  \<open>mergeSort\<close> is the function with its three arguments given; \<open>mergeSort_default\<close> is
  the call \<^verbatim>\<open>mergeSort(arr)\<close>, where \<open>i\<close> and \<open>j\<close> take their default values. On
  integers \<^verbatim>\<open>Math.floor((j - i) / 2)\<close> is \<open>(j - i) div 2\<close>, also when \<open>j - i\<close> is
  negative. In the object literal a later entry with the same key replaces the earlier
  one, as a map update does.
\<close>

function mergeSort :: "'a::linorder jsarray \<Rightarrow> int \<Rightarrow> int \<Rightarrow> 'a run" where
  "mergeSort arr i j =
     (let middle = (j - i) div 2 + i;
          s = \<lparr>result = arr,
               colors = Some [i \<mapsto> ''yellow'', middle \<mapsto> ''blue'', j \<mapsto> ''green'']\<rparr>
      in if j \<le> i then
           \<lparr>yields = [s], ret = \<lparr>result = arr, colors = None\<rparr>, heap = arr\<rparr>
         else
           let r1 = mergeSort arr i middle;
               r2 = mergeSort (heap r1) (middle + 1) j;
               r3 = merge (heap r2) i middle j
           in \<lparr>yields = s # yields r1 @ yields r2 @ yields r3,
               ret = \<lparr>result = heap r3, colors = None\<rparr>,
               heap = heap r3\<rparr>)"
  by pat_completeness auto
termination
  by (relation "measure (\<lambda>(arr, i, j). nat (j - i))") auto

declare mergeSort.simps [simp del]

definition mergeSort_default :: "'a::linorder jsarray \<Rightarrow> 'a run" where
  "mergeSort_default arr = mergeSort arr 0 (int (length arr) - 1)"

section \<open>Generator objects and the component that drives them\<close>

text \<open>
  \<^verbatim>\<open>
  interface IteratorYieldResult<TYield> { done?: false; value: TYield; }
  interface IteratorReturnResult<TReturn> { done: true; value: TReturn; }
  \<close>
  The fields are called \<open>it_value\<close> and \<open>it_done\<close> (both names are keywords of
  Isabelle); \<open>it_value = None\<close> is \<^verbatim>\<open>value: undefined\<close>.

  A generator object holds what its function has still to produce: the steps not yet
  yielded and, until it has been handed out, the return value. Every generator
  function of the article runs to its end (the functions above are total), so the steps
  can be listed in advance. \<open>gen_next\<close> is \<^verbatim>\<open>generator.next()\<close>: the next yielded
  value with \<^verbatim>\<open>done: false\<close>; then the return value with \<^verbatim>\<open>done: true\<close>; from
  then on \<^verbatim>\<open>{ value: undefined, done: true }\<close>.
\<close>

record 'a IteratorResult =
  it_value :: "'a StepState option"
  it_done :: bool

record 'a Generator =
  pending :: "'a StepState list"
  final :: "'a StepState option"

definition generator_of :: "'a run \<Rightarrow> 'a Generator" where
  "generator_of r = \<lparr>pending = yields r, final = Some (ret r)\<rparr>"

definition gen_next :: "'a Generator \<Rightarrow> 'a IteratorResult \<times> 'a Generator" where
  "gen_next g =
     (case pending g of
        s # rest \<Rightarrow> (\<lparr>it_value = Some s, it_done = False\<rparr>, g\<lparr>pending := rest\<rparr>)
      | [] \<Rightarrow>
         (case final g of
            Some r \<Rightarrow> (\<lparr>it_value = Some r, it_done = True\<rparr>, g\<lparr>final := None\<rparr>)
          | None \<Rightarrow> (\<lparr>it_value = None, it_done = True\<rparr>, g)))"

text \<open>
  \<^verbatim>\<open>
  const makeRandomArray = (length: number) => {
    const arr = [];
    for (let i = 0; i < length; i++) {
      arr.push(Math.round(Math.random() * 1000));
    }
    return arr;
  };
  \<close>
  \<open>rnd k\<close> is the value of \<^verbatim>\<open>Math.round(Math.random() * 1000)\<close> at the \<open>k\<close>-th
  turn of the loop. The function has no check of \<open>length\<close> and raises nothing.
\<close>

function makeRandomArray_loop :: "(nat \<Rightarrow> int) \<Rightarrow> int \<Rightarrow> nat \<Rightarrow> int jsarray \<Rightarrow> int jsarray" where
  "makeRandomArray_loop rnd len i arr =
     (if int i < len then makeRandomArray_loop rnd len (i + 1) (arr @ [Num (rnd i)])
      else arr)"
  by pat_completeness auto
termination
  by (relation "measure (\<lambda>(rnd, len, i, arr). nat (len - int i))") auto

declare makeRandomArray_loop.simps [simp del]

definition makeRandomArray :: "(nat \<Rightarrow> int) \<Rightarrow> int \<Rightarrow> int jsarray" where
  "makeRandomArray rnd len = makeRandomArray_loop rnd len 0 []"

text \<open>
  \<^verbatim>\<open>
  export default function App() {
    const [generator, setGenerator] = useState(mergeSort(makeRandomArray(10)));
    const [sortingState, setSortingState] = useState(() => generator.next());
    const sort = () => {
      if (!sortingState.done) { setSortingState(generator.next()); }
    };
    const reset = () => {
      const newGenerator = mergeSort(makeRandomArray(10));
      setGenerator(newGenerator);
      setSortingState(newGenerator.next());
    };
  \<close>
  The state of the component is the generator object and the last iterator result.
  \<open>App_init g\<close> is the state after the first render with generator \<open>g\<close>. The handler
  is called \<open>sort'\<close> (\<open>sort\<close> is a constant of HOL). The length \<^verbatim>\<open>10\<close> is the
  parameter \<open>len\<close> of \<open>reset\<close>.
\<close>

record 'a App =
  generator :: "'a Generator"
  sortingState :: "'a IteratorResult"

definition App_init :: "'a Generator \<Rightarrow> 'a App" where
  "App_init g = (let (r, g') = gen_next g in \<lparr>generator = g', sortingState = r\<rparr>)"

definition sort' :: "'a App \<Rightarrow> 'a App" where
  "sort' app =
     (if \<not> it_done (sortingState app) then
        let (r, g') = gen_next (generator app) in \<lparr>generator = g', sortingState = r\<rparr>
      else app)"

definition reset :: "(nat \<Rightarrow> int) \<Rightarrow> int \<Rightarrow> int App \<Rightarrow> int App" where
  "reset rnd len app =
     (let newGenerator = generator_of (mergeSort_default (makeRandomArray rnd len));
          (r, g') = gen_next newGenerator
      in \<lparr>generator = g', sortingState = r\<rparr>)"

subsection \<open>The algorithm selector\<close>

text \<open>
  \<^verbatim>\<open>
  export const algorithms = { bubbleSort, insertionSort, mergeSort, quickSort, inPlaceMergeSort } as const
  export const algorithmNames = { bubbleSort: 'Bubble Sort', insertionSort: 'Insertion Sort',
    mergeSort: 'Merge Sort', quickSort: 'Quick Sort', inPlaceMergeSort: 'In-Place Merge Sort' } as const
  export type AlgorithmKey = keyof typeof algorithmNames
  export const algorithmKeys = Object.keys(algorithmNames) as AlgorithmKey[]
  \<close>
  The article does not show \<^verbatim>\<open>insertionSort\<close>, \<^verbatim>\<open>quickSort\<close> and
  \<^verbatim>\<open>inPlaceMergeSort\<close>: they are parameters of \<open>algorithms\<close>, which is the map of the
  five own properties of the object.
\<close>

datatype js_error = TypeError











text \<open>
  \<^verbatim>\<open>
  // In component
  const [algorithmKey, setAlgorithmKey] = useState<AlgorithmKey>('mergeSort')
  const selectedAlgorithm = algorithms[algorithmKey]
  const [sortGenerator, setSortGenerator] = useState(selectedAlgorithm(randomArray(ARRAY_LEN)))
  const [sortState, setSortState] = useState(() => sortGenerator.next())
  const reset = useCallback(() => {
    const newGenerator = selectedAlgorithm(randomArray(ARRAY_LEN))
    const next = newGenerator.next()
    setSortGenerator(newGenerator)
    setSortState(next)
  }, [selectedAlgorithm])

  const [mode, setMode] = useState<Mode>(Mode.Pause)
  const { algorithmKey, setAlgorithmKey, reset, nextStep, sortState } = useSorting({
    onReset: () => { setMode(Mode.Pause) },
    onAlgorithmChange: () => { setMode(Mode.Pause) },
  })
  \<close>
  The state of the component is the four values held by \<^verbatim>\<open>useState\<close>. The
  declaration of \<^verbatim>\<open>Mode\<close> is not in the article, which names \<^verbatim>\<open>Mode.Pause\<close> and
  \<^verbatim>\<open>Mode.Play\<close> and gives every other mode the shorter delay; the third mode is
  called \<open>Fast\<close>. Autoplay runs in every mode but \<open>Pause\<close>.

  \<^item> \<open>setAlgorithmKey\<close> and \<open>setMode\<close> are the state setters.
  \<^item> \<open>onAlgorithmChange\<close> and \<open>onReset\<close> are the two callbacks that the component hands
    to the hook.
  \<^item> \<open>render\<close> is a render after the first. It runs the body of the component again:
    the key is looked up, and the value found is called with a new random array,
    because the argument of \<^verbatim>\<open>useState\<close> in line 597 is evaluated at every render,
    though only the first render uses its value. When the call raises, the render
    raises; otherwise the state is as it was. The argument of \<^verbatim>\<open>useState\<close> in
    line 598 is a function, which later renders do not call.
  \<^item> \<open>selector_reset\<close> is \<^verbatim>\<open>reset\<close>, with the array \<^verbatim>\<open>randomArray(ARRAY_LEN)\<close> as a
    parameter; calling \<^verbatim>\<open>next\<close> on a value that has no such method raises a
    \<^verbatim>\<open>TypeError\<close>.
  \<^item> \<open>Selector_init randomArray\<close> is the state after the first render: the key is
    \<^verbatim>\<open>'mergeSort'\<close>, the generator is \<^verbatim>\<open>algorithms['mergeSort']\<close> on the random array,
    the step is the result of its first \<^verbatim>\<open>next()\<close>, and the mode is \<open>Pause\<close>.
\<close>

datatype Mode = Pause | Play | Fast












text \<open>A source of random numbers that always gives 500, for concrete runs.\<close>

definition constant_rnd :: "nat \<Rightarrow> int" where
  "constant_rnd k = 500"


section \<open>Advent of Code 2023, day 2: the two versions of part 1\<close>

subsection \<open>The string functions of JavaScript that the code calls\<close>

text \<open>
  Strings are lists of characters; the inputs of interest are ASCII. A JavaScript
  number is an integer or \<^verbatim>\<open>NaN\<close> (\<open>None\<close>); no input of the puzzle is large enough for
  rounding to matter. A value that may be \<^verbatim>\<open>undefined\<close> is an option.

  \<^item> \<open>js_split s sep\<close> is \<^verbatim>\<open>s.split(sep)\<close> for a string \<open>sep\<close>: the pieces between the
    occurrences of \<open>sep\<close>, found from left to right; an empty \<open>sep\<close> cuts between all
    characters.
  \<^item> \<open>js_replace s pat rep\<close> is \<^verbatim>\<open>s.replace(pat, rep)\<close> for a string \<open>pat\<close> and a
    replacement without \<^verbatim>\<open>$\<close>: the first occurrence is replaced.
  \<^item> \<open>js_trim\<close> is \<^verbatim>\<open>trim()\<close>, on the ASCII white space.
  \<^item> \<open>parseInt\<close> without a radix: leading white space, an optional sign, an optional
    \<^verbatim>\<open>0x\<close>, then the longest run of digits; \<^verbatim>\<open>NaN\<close> when the run is empty.
  \<^item> \<open>elem xs k\<close> is \<^verbatim>\<open>xs[k]\<close> as array destructuring reads it.
  \<^item> \<open>js_to_string\<close> is the conversion to a string that \<^verbatim>\<open>parseInt\<close> and a property
    key apply: \<^verbatim>\<open>undefined\<close> becomes \<^verbatim>\<open>"undefined"\<close>.
\<close>

type_synonym jsnumber = "int option"

function split_scan :: "string \<Rightarrow> string \<Rightarrow> string \<Rightarrow> string list" where
  "split_scan sep cur s =
     (if s = [] then [cur]
      else if sep \<noteq> [] \<and> take (length sep) s = sep
        then cur # split_scan sep [] (drop (length sep) s)
      else split_scan sep (cur @ [hd s]) (tl s))"
  by pat_completeness auto
termination
  by (relation "measure (\<lambda>(sep, cur, s). length s)") auto

declare split_scan.simps [simp del]

definition js_split :: "string \<Rightarrow> string \<Rightarrow> string list" where
  "js_split s sep = (if sep = [] then map (\<lambda>c. [c]) s else split_scan sep [] s)"

fun js_replace :: "string \<Rightarrow> string \<Rightarrow> string \<Rightarrow> string" where
  "js_replace s pat rep =
     (if take (length pat) s = pat then rep @ drop (length pat) s
      else (case s of [] \<Rightarrow> [] | c # cs \<Rightarrow> c # js_replace cs pat rep))"

declare js_replace.simps [simp del]

definition is_space :: "char \<Rightarrow> bool" where
  "is_space c \<longleftrightarrow> c \<in> {CHR '' '', CHR 0x09, CHR 0x0A, CHR 0x0B, CHR 0x0C, CHR 0x0D}"

definition js_trim :: "string \<Rightarrow> string" where
  "js_trim s = rev (dropWhile is_space (rev (dropWhile is_space s)))"

definition digit_of :: "nat \<Rightarrow> char \<Rightarrow> nat option" where
  "digit_of radix c =
     (let n = (of_char c :: nat);
          v = (if 48 \<le> n \<and> n \<le> 57 then Some (n - 48)
               else if 97 \<le> n \<and> n \<le> 122 then Some (n - 87)
               else if 65 \<le> n \<and> n \<le> 90 then Some (n - 55)
               else None)
      in case v of None \<Rightarrow> None | Some d \<Rightarrow> if d < radix then Some d else None)"

definition parseInt :: "string \<Rightarrow> jsnumber" where
  "parseInt s =
     (let s1 = dropWhile is_space s;
          (sign, s2) = (case s1 of
                          c # r \<Rightarrow> if c = CHR ''-'' then (- 1 :: int, r)
                                   else if c = CHR ''+'' then (1, r) else (1, s1)
                        | [] \<Rightarrow> (1, s1));
          (radix, s3) = (if take 2 s2 = ''0x'' \<or> take 2 s2 = ''0X'' then (16 :: nat, drop 2 s2)
                         else (10, s2));
          ds = takeWhile (\<lambda>c. digit_of radix c \<noteq> None) s3
      in if ds = [] then None
         else Some (sign * int (foldl (\<lambda>acc c. acc * radix + the (digit_of radix c)) 0 ds)))"

definition elem :: "'a list \<Rightarrow> nat \<Rightarrow> 'a option" where
  "elem xs k = (if k < length xs then Some (xs ! k) else None)"

definition js_to_string :: "string option \<Rightarrow> string" where
  "js_to_string v = (case v of None \<Rightarrow> ''undefined'' | Some s \<Rightarrow> s)"

definition num_gt :: "jsnumber \<Rightarrow> int \<Rightarrow> bool" where
  "num_gt a b = (case a of None \<Rightarrow> False | Some x \<Rightarrow> x > b)"

definition num_le :: "jsnumber \<Rightarrow> int \<Rightarrow> bool" where
  "num_le a b = (case a of None \<Rightarrow> False | Some x \<Rightarrow> x \<le> b)"

definition num_add :: "jsnumber \<Rightarrow> jsnumber \<Rightarrow> jsnumber" where
  "num_add a b = (case (a, b) of (Some x, Some y) \<Rightarrow> Some (x + y) | _ \<Rightarrow> None)"

definition math_max :: "jsnumber \<Rightarrow> jsnumber \<Rightarrow> jsnumber" where
  "math_max a b = (case (a, b) of (Some x, Some y) \<Rightarrow> Some (max x y) | _ \<Rightarrow> None)"

subsection \<open>First way\<close>

text \<open>
  \<^verbatim>\<open>
  function checkReveal(str) {
    for (const ball of str.split(', ')) {
      const [numStr, color] = ball.split(' ')
      const num = parseInt(numStr)
      if (color === 'red' && num > 12) return false
      if (color === 'green' && num > 13) return false
      if (color === 'blue' && num > 14) return false
    }
    return true
  }
  export function part1(input) {
    const lines = input.split('\n')
    let sum = 0
    for (const game of lines) {
      const [gameText, infoText] = game.split(': ')
      const id = gameText.replace('Game ', '').trim()
      const possible = infoText.split('; ').every((reveal) => checkReveal(reveal))
      if (possible) { sum += parseInt(id) }
    }
    return sum
  }
  \<close>
  The two functions called \<^verbatim>\<open>part1\<close> are \<open>part1_first\<close> and \<open>part1_second\<close>.
  The variable \<^verbatim>\<open>sum\<close> is \<open>sum_acc\<close> and \<^verbatim>\<open>id\<close> is \<open>id'\<close> (\<open>sum\<close> and \<open>id\<close> are
  constants of HOL). A method call on \<^verbatim>\<open>undefined\<close> raises a \<^verbatim>\<open>TypeError\<close>, which ends the function.
\<close>

fun checkReveal_loop :: "string list \<Rightarrow> bool" where
  "checkReveal_loop [] = True"
| "checkReveal_loop (ball # rest) =
     (let parts = js_split ball '' '';
          numStr = elem parts 0;
          color = elem parts 1;
          num = parseInt (js_to_string numStr)
      in if color = Some ''red'' \<and> num_gt num 12 then False
         else if color = Some ''green'' \<and> num_gt num 13 then False
         else if color = Some ''blue'' \<and> num_gt num 14 then False
         else checkReveal_loop rest)"

definition checkReveal :: "string \<Rightarrow> bool" where
  "checkReveal str = checkReveal_loop (js_split str '', '')"

fun part1_first_loop :: "string list \<Rightarrow> jsnumber \<Rightarrow> js_error + jsnumber" where
  "part1_first_loop [] sum_acc = Inr sum_acc"
| "part1_first_loop (game # rest) sum_acc =
     (let parts = js_split game '': '';
          gameText = elem parts 0;
          infoText = elem parts 1
      in case gameText of
           None \<Rightarrow> Inl TypeError
         | Some gameText \<Rightarrow>
             let id' = js_trim (js_replace gameText ''Game '' [])
             in case infoText of
                  None \<Rightarrow> Inl TypeError
                | Some infoText \<Rightarrow>
                    let possible = list_all checkReveal (js_split infoText ''; '')
                    in part1_first_loop rest
                         (if possible then num_add sum_acc (parseInt id') else sum_acc))"

definition part1_first :: "string \<Rightarrow> js_error + jsnumber" where
  "part1_first input = part1_first_loop (js_split input [CHR 0x0A]) (Some 0)"

subsection \<open>Second way\<close>

text \<open>
  \<^verbatim>\<open>
  export function part1(input) {
    const lines = input.split('\n')
    let sum = 0
    for (const game of lines) {
      const [gameText, infoText] = game.split(': ')
      const id = gameText.replace('Game ', '').trim()
      const reveals = infoText.split('; ')
      const leastNumOfBalls = { red: 0, blue: 0, green: 0 }
      for (const reveal of reveals) {
        const infos = reveal.split(', ').map((x) => x.split(' '))
        for (const [numStr, color] of infos) {
          const num = parseInt(numStr)
          leastNumOfBalls[color] = Math.max(leastNumOfBalls[color], num)
        }
      }
      const { red, blue, green } = leastNumOfBalls
      if (red <= 12 && green <= 13 && blue <= 14) { sum += parseInt(id) }
    }
    return sum
  }
  \<close>
  \<open>leastNumOfBalls\<close> is a map from property keys to numbers. \<open>get_prop m key\<close> is the number
  that \<^verbatim>\<open>Math.max\<close> and \<^verbatim>\<open><=\<close> make of \<^verbatim>\<open>m[key]\<close>: \<^verbatim>\<open>NaN\<close> for a key that is
  not there (\<^verbatim>\<open>undefined\<close>, and likewise what an object inherits under a key).
\<close>

definition get_prop :: "(string \<rightharpoonup> jsnumber) \<Rightarrow> string \<Rightarrow> jsnumber" where
  "get_prop m key = (case m key of None \<Rightarrow> None | Some v \<Rightarrow> v)"

fun infos_loop :: "string list list \<Rightarrow> (string \<rightharpoonup> jsnumber) \<Rightarrow> (string \<rightharpoonup> jsnumber)" where
  "infos_loop [] leastNumOfBalls = leastNumOfBalls"
| "infos_loop (info # rest) leastNumOfBalls =
     (let numStr = elem info 0;
          color = js_to_string (elem info 1);
          num = parseInt (js_to_string numStr)
      in infos_loop rest
           (leastNumOfBalls(color \<mapsto> math_max (get_prop leastNumOfBalls color) num)))"

fun reveals_loop :: "string list \<Rightarrow> (string \<rightharpoonup> jsnumber) \<Rightarrow> (string \<rightharpoonup> jsnumber)" where
  "reveals_loop [] leastNumOfBalls = leastNumOfBalls"
| "reveals_loop (reveal # rest) leastNumOfBalls =
     (let infos = map (\<lambda>x. js_split x '' '') (js_split reveal '', '')
      in reveals_loop rest (infos_loop infos leastNumOfBalls))"

fun part1_second_loop :: "string list \<Rightarrow> jsnumber \<Rightarrow> js_error + jsnumber" where
  "part1_second_loop [] sum_acc = Inr sum_acc"
| "part1_second_loop (game # rest) sum_acc =
     (let parts = js_split game '': '';
          gameText = elem parts 0;
          infoText = elem parts 1
      in case gameText of
           None \<Rightarrow> Inl TypeError
         | Some gameText \<Rightarrow>
             let id' = js_trim (js_replace gameText ''Game '' [])
             in case infoText of
                  None \<Rightarrow> Inl TypeError
                | Some infoText \<Rightarrow>
                    let reveals = js_split infoText ''; '';
                        leastNumOfBalls = reveals_loop reveals
                          [''red'' \<mapsto> Some 0, ''blue'' \<mapsto> Some 0, ''green'' \<mapsto> Some 0];
                        red = get_prop leastNumOfBalls ''red'';
                        blue = get_prop leastNumOfBalls ''blue'';
                        green = get_prop leastNumOfBalls ''green''
                    in part1_second_loop rest
                         (if num_le red 12 \<and> num_le green 13 \<and> num_le blue 14
                          then num_add sum_acc (parseInt id') else sum_acc))"

definition part1_second :: "string \<Rightarrow> js_error + jsnumber" where
  "part1_second input = part1_second_loop (js_split input [CHR 0x0A]) (Some 0)"

subsection \<open>Well-formed puzzle input\<close>

text \<open>
  Every line is \<^verbatim>\<open>Game N: \<close> followed by reveals separated by \<^verbatim>\<open>; \<close>; a reveal is
  a list of balls separated by \<^verbatim>\<open>, \<close>; a ball is a count, one space and one of the
  colours \<^verbatim>\<open>red\<close>, \<^verbatim>\<open>green\<close>, \<^verbatim>\<open>blue\<close>; \<open>N\<close> and the counts are non-empty runs of
  decimal digits.
\<close>

definition is_digit :: "char \<Rightarrow> bool" where
  "is_digit c \<longleftrightarrow> 48 \<le> (of_char c :: nat) \<and> (of_char c :: nat) \<le> 57"

definition is_number :: "string \<Rightarrow> bool" where
  "is_number s \<longleftrightarrow> s \<noteq> [] \<and> list_all is_digit s"

definition wf_ball :: "string \<Rightarrow> bool" where
  "wf_ball ball =
     (case js_split ball '' '' of
        [n, c] \<Rightarrow> is_number n \<and> (c = ''red'' \<or> c = ''green'' \<or> c = ''blue'')
      | _ \<Rightarrow> False)"

definition wf_reveal :: "string \<Rightarrow> bool" where
  "wf_reveal reveal = list_all wf_ball (js_split reveal '', '')"

definition wf_game :: "string \<Rightarrow> bool" where
  "wf_game game =
     (case js_split game '': '' of
        [gameText, infoText] \<Rightarrow>
          take 5 gameText = ''Game '' \<and> is_number (drop 5 gameText) \<and>
          list_all wf_reveal (js_split infoText ''; '')
      | _ \<Rightarrow> False)"

definition well_formed :: "string \<Rightarrow> bool" where
  "well_formed input = list_all wf_game (js_split input [CHR 0x0A])"

text \<open>
  The same grammar, written as the text that a list of games stands for: a game is
  its number and its reveals, a reveal is a list of balls, a ball is a count and a
  colour; numbers and counts are given by their digits. \<open>join sep ps\<close> puts \<open>sep\<close>
  between the pieces \<open>ps\<close>. \<open>grammatical\<close>: there is at least one game, every game
  has at least one reveal, every reveal at least one ball, and the numbers and counts
  are non-empty runs of digits.
\<close>

datatype colour = Red | Green | Blue

fun colour_name :: "colour \<Rightarrow> string" where
  "colour_name Red = ''red''"
| "colour_name Green = ''green''"
| "colour_name Blue = ''blue''"

fun join :: "string \<Rightarrow> string list \<Rightarrow> string" where
  "join sep [] = []"
| "join sep [p] = p"
| "join sep (p # q # ps) = p @ sep @ join sep (q # ps)"

definition render_ball :: "string \<times> colour \<Rightarrow> string" where
  "render_ball b = fst b @ '' '' @ colour_name (snd b)"

definition render_reveal :: "(string \<times> colour) list \<Rightarrow> string" where
  "render_reveal balls = join '', '' (map render_ball balls)"

definition render_game :: "string \<times> (string \<times> colour) list list \<Rightarrow> string" where
  "render_game g = ''Game '' @ fst g @ '': '' @ join ''; '' (map render_reveal (snd g))"

definition render_input :: "(string \<times> (string \<times> colour) list list) list \<Rightarrow> string" where
  "render_input games = join [CHR 0x0A] (map render_game games)"

definition grammatical :: "(string \<times> (string \<times> colour) list list) list \<Rightarrow> bool" where
  "grammatical games \<longleftrightarrow>
     games \<noteq> [] \<and>
     list_all (\<lambda>g. is_number (fst g) \<and> snd g \<noteq> [] \<and>
       list_all (\<lambda>balls. balls \<noteq> [] \<and> list_all (\<lambda>b. is_number (fst b)) balls) (snd g)) games"

section \<open>Notions for stating and proving the properties\<close>

subsection \<open>bubbleSort\<close>

text \<open>
  \<open>bpass\<close> is what one turn of the outer loop does to the part of the array it
  visits: adjacent elements are exchanged from left to right, which moves a largest
  element to the end.
\<close>

fun bpass :: "'a::linorder jsarray \<Rightarrow> 'a jsarray" where
  "bpass (x # y # zs) = (if js_gt x y then y # bpass (x # zs) else x # bpass (y # zs))"
| "bpass [x] = [x]"
| "bpass [] = []"

text \<open>
  A run of \<open>bubbleSort\<close> in the words of the specification: one comparison after the
  other, each with the steps it shows.
  \<^item> \<open>comparisons n i\<close> lists the indices \<open>j\<close> of the comparisons of \<open>j\<close> with \<open>j + 1\<close>,
    in order, from turn \<open>i\<close> of the outer loop on, for an array of length \<open>n\<close>.
  \<^item> \<open>swap_needed arr j\<close>: in the array \<open>arr\<close> the element at \<open>j\<close> is greater than the
    element at \<open>j + 1\<close>.
  \<^item> \<open>comparison_block arr j\<close> are the steps of one comparison made on the array \<open>arr\<close>:
    when no swap is needed, one step that shows \<open>arr\<close> with both indices yellow;
    otherwise a step that shows \<open>arr\<close>, still unchanged, with \<open>j\<close> yellow and \<open>j + 1\<close>
    green, followed by a step that shows \<open>arr\<close> with the two elements exchanged and the
    two colours exchanged.
  \<^item> \<open>after_comparison arr j\<close> is the array that the comparison leaves.
  \<^item> \<open>comparison_run arr js\<close> makes the comparisons \<open>js\<close> one after the other, the first
    on \<open>arr\<close> and each later one on the array that the one before it left; it gives the
    steps of all of them, in order, and the array that the last one leaves.
\<close>

definition comparisons :: "nat \<Rightarrow> nat \<Rightarrow> nat list" where
  "comparisons n i = concat (map (\<lambda>i. [0..<n - i - 1]) [i..<n])"

definition swap_needed :: "'a::linorder jsarray \<Rightarrow> nat \<Rightarrow> bool" where
  "swap_needed arr j = js_gt (aget arr (int j)) (aget arr (int j + 1))"

definition comparison_block :: "'a::linorder jsarray \<Rightarrow> nat \<Rightarrow> 'a StepState list" where
  "comparison_block arr j =
     (if swap_needed arr j then
        [\<lparr>result = arr, colors = Some [int j \<mapsto> ''yellow'', int j + 1 \<mapsto> ''green'']\<rparr>,
         \<lparr>result = swap_adjacent arr j,
           colors = Some [int j \<mapsto> ''green'', int j + 1 \<mapsto> ''yellow'']\<rparr>]
      else
        [\<lparr>result = arr, colors = Some [int j \<mapsto> ''yellow'', int j + 1 \<mapsto> ''yellow'']\<rparr>])"

definition after_comparison :: "'a::linorder jsarray \<Rightarrow> nat \<Rightarrow> 'a jsarray" where
  "after_comparison arr j = (if swap_needed arr j then swap_adjacent arr j else arr)"

fun comparison_run :: "'a::linorder jsarray \<Rightarrow> nat list \<Rightarrow> 'a StepState list \<times> 'a jsarray" where
  "comparison_run arr [] = ([], arr)"
| "comparison_run arr (j # js) =
     (let (ys, arr') = comparison_run (after_comparison arr j) js
      in (comparison_block arr j @ ys, arr'))"

subsection \<open>merge and mergeSort\<close>

text \<open>
  Names for what the code of \<open>merge\<close> produces:
  \<^item> \<open>selected_step arr middle index\<close> is the step that \<^verbatim>\<open>push(index)\<close> yields;
  \<^item> \<open>write_prefix arr i sorted' k\<close> is the array after the first \<open>k\<close> turns of the
    last loop, that is after \<^verbatim>\<open>arr[i + m] = sorted[m]\<close> for \<open>m < k\<close>, and
    \<open>written_step arr i sorted' k\<close> is the step that turn \<open>k\<close> yields (before its own
    write);
  \<^item> \<open>merge_pushes\<close> is the three \<^verbatim>\<open>while\<close> loops in sequence;
  \<^item> \<open>slice arr a b\<close> is the list of \<^verbatim>\<open>arr[a]\<close>, ..., \<^verbatim>\<open>arr[b]\<close>, and \<open>lmerge\<close> merges two
    lists the way the loops choose between \<^verbatim>\<open>arr[left]\<close> and \<^verbatim>\<open>arr[right]\<close>.
\<close>

definition selected_step :: "'a jsarray \<Rightarrow> int \<Rightarrow> int \<Rightarrow> 'a StepState" where
  "selected_step arr middle index =
     \<lparr>result = arr, colors = Some [middle \<mapsto> ''blue'', index \<mapsto> ''red'']\<rparr>"

definition write_prefix :: "'a jsarray \<Rightarrow> int \<Rightarrow> 'a jsarray \<Rightarrow> nat \<Rightarrow> 'a jsarray" where
  "write_prefix arr i sorted' k = fold (\<lambda>m a. aset a (i + int m) (sorted' ! m)) [0..<k] arr"

definition written_step :: "'a jsarray \<Rightarrow> int \<Rightarrow> 'a jsarray \<Rightarrow> nat \<Rightarrow> 'a StepState" where
  "written_step arr i sorted' k =
     \<lparr>result = write_prefix arr i sorted' k, colors = Some [i + int k \<mapsto> ''yellow'']\<rparr>"

definition slice :: "'a jsarray \<Rightarrow> int \<Rightarrow> int \<Rightarrow> 'a jsarray" where
  "slice arr a b = map (aget arr) [a..b]"

fun lmerge :: "'a::linorder jsarray \<Rightarrow> 'a jsarray \<Rightarrow> 'a jsarray" where
  "lmerge (x # xs) (y # ys) =
     (if js_le x y then x # lmerge xs (y # ys) else y # lmerge (x # xs) ys)"
| "lmerge [] ys = ys"
| "lmerge (x # xs) [] = x # xs"

definition merge_pushes ::
  "'a::linorder jsarray \<Rightarrow> int \<Rightarrow> int \<Rightarrow> int \<Rightarrow> int \<Rightarrow> 'a jsarray \<Rightarrow> 'a StepState list \<times> 'a jsarray" where
  "merge_pushes arr middle j left right acc =
     (let (ys1, left1, right1, sorted1) = merge_while1 arr middle j left right acc;
          (ys2, left2, sorted2) = merge_while2 arr middle left1 sorted1;
          (ys3, right3, sorted3) = merge_while3 arr middle j right1 sorted2
      in (ys1 @ ys2 @ ys3, sorted3))"

text \<open>
  \<open>mergeSort_count n\<close> is the number of steps that \<open>mergeSort\<close> yields on a range of
  \<open>n\<close> elements: one step for the range, the steps of the two halves, and two steps
  for each element that \<open>merge\<close> moves.
\<close>

function mergeSort_count :: "nat \<Rightarrow> nat" where
  "mergeSort_count n =
     (if n \<le> 1 then 1
      else 1 + mergeSort_count ((n + 1) div 2) + mergeSort_count (n div 2) + 2 * n)"
  by pat_completeness auto
termination
  by (relation "measure (\<lambda>n. n)") auto

declare mergeSort_count.simps [simp del]

subsection \<open>Sorted arrays\<close>

text \<open>
  \<open>non_decreasing arr\<close>: no element of \<open>arr\<close> is greater than an element after it. On
  numbers other than \<^verbatim>\<open>NaN\<close> this is the order of a sorted list; it is the least
  that non-decreasing can ask of an array in which \<^verbatim>\<open>NaN\<close> occurs, since
  \<^verbatim>\<open>NaN\<close> is neither greater nor less than any number.
\<close>

definition non_decreasing :: "'a::linorder jsarray \<Rightarrow> bool" where
  "non_decreasing arr = sorted_wrt (\<lambda>a b. \<not> js_gt a b) arr"

subsection \<open>The component\<close>

text \<open>
  \<open>app_after r k\<close> is the state of the component \<open>k\<close> calls of the handler after the
  first render, for a generator whose run is \<open>r\<close>: the step with index \<open>k\<close> while there
  is one, then the returned value with the done signal.
\<close>

definition app_after :: "'a run \<Rightarrow> nat \<Rightarrow> 'a App" where
  "app_after r k =
     (if k < length (yields r) then
        \<lparr>generator = \<lparr>pending = drop (Suc k) (yields r), final = Some (ret r)\<rparr>,
         sortingState = \<lparr>it_value = Some (yields r ! k), it_done = False\<rparr>\<rparr>
      else
        \<lparr>generator = \<lparr>pending = [], final = None\<rparr>,
         sortingState = \<lparr>it_value = Some (ret r), it_done = True\<rparr>\<rparr>)"

subsection \<open>The puzzle\<close>

text \<open>
  \<open>numeric m\<close>: the three colours of \<open>leastNumOfBalls\<close> hold numbers. \<open>within m\<close> is the
  test of the second version, \<^verbatim>\<open>red <= 12 && green <= 13 && blue <= 14\<close>.
  \<open>example_input\<close> is the example of the puzzle text.
\<close>

definition numeric :: "(string \<rightharpoonup> jsnumber) \<Rightarrow> bool" where
  "numeric m \<longleftrightarrow>
     (\<exists>r g b. m ''red'' = Some (Some r) \<and> m ''green'' = Some (Some g) \<and> m ''blue'' = Some (Some b))"

definition within :: "(string \<rightharpoonup> jsnumber) \<Rightarrow> bool" where
  "within m \<longleftrightarrow>
     num_le (get_prop m ''red'') 12 \<and> num_le (get_prop m ''green'') 13 \<and>
     num_le (get_prop m ''blue'') 14"

definition example_input :: string where
  "example_input =
     ''Game 1: 3 blue, 4 red; 1 red, 2 green, 6 blue; 2 green'' @ [CHR 0x0A] @
     ''Game 2: 1 blue, 2 green; 3 green, 4 blue, 1 red; 1 green, 1 blue'' @ [CHR 0x0A] @
     ''Game 3: 8 green, 6 blue, 20 red; 5 blue, 4 red, 13 green; 5 green, 1 red'' @ [CHR 0x0A] @
     ''Game 4: 1 green, 3 red, 6 blue; 3 green, 6 red; 3 green, 15 blue, 14 red'' @ [CHR 0x0A] @
     ''Game 5: 6 red, 1 blue, 3 green; 2 blue, 1 red, 2 green''"

section \<open>Properties of bubbleSort: the array after a run\<close>

lemma aget_app_length:
  "aget (pre @ x # rest) (int (length pre)) = x"
  by (simp add: aget_def)

lemma aget_app_length1:
  "aget (pre @ x # y # rest) (int (length pre) + 1) = y"
  using aget_app_length [of "pre @ [x]" y rest] by (simp add: add.commute)

lemma swap_adjacent_app:
  "swap_adjacent (pre @ x # y # rest) (length pre) = pre @ y # x # rest"
proof -
  have "aset (pre @ x # y # rest) (int (length pre)) y = pre @ y # y # rest"
    by (simp add: aset_def)
  moreover have "aset (pre @ y # y # rest) (int (length pre) + 1) x = pre @ y # x # rest"
    by (simp add: aset_def list_update_append nat_add_distrib)
  ultimately show ?thesis
    by (simp add: swap_adjacent_def Let_def aget_app_length aget_app_length1)
qed

lemma bubble_inner_heap:
  "length pre = j \<Longrightarrow> length suf = i \<Longrightarrow>
   snd (bubble_inner (pre @ mid @ suf) i j) = pre @ bpass mid @ suf"
proof (induction mid arbitrary: pre j rule: bpass.induct)
  case (1 x y zs)
  let ?arr = "pre @ (x # y # zs) @ suf"
  have guard: "int j < int (length ?arr) - int i - 1"
    using 1 by simp
  have rd: "aget ?arr (int j) = x" "aget ?arr (int j + 1) = y"
    using 1(3) aget_app_length [of pre x "y # zs @ suf"] aget_app_length1 [of pre x y "zs @ suf"]
    by simp_all
  have sw: "swap_adjacent ?arr j = (pre @ [y]) @ (x # zs) @ suf"
    using 1(3) swap_adjacent_app [of pre x y "zs @ suf"] by simp
  show ?case
  proof (cases "js_gt x y")
    case True
    have "snd (bubble_inner ((pre @ [y]) @ (x # zs) @ suf) i (j + 1)) =
          (pre @ [y]) @ bpass (x # zs) @ suf"
      using "1.IH"(1) [OF True, of "pre @ [y]" "j + 1"] 1(3,4) by simp
    then show ?thesis 
      using True guard rd sw by (subst bubble_inner.simps) (simp add: Let_def split_beta)
  next
    case False
    have "snd (bubble_inner ((pre @ [x]) @ (y # zs) @ suf) i (j + 1)) =
          (pre @ [x]) @ bpass (y # zs) @ suf"
      using "1.IH"(2) [OF False, of "pre @ [x]" "j + 1"] 1(3,4) by simp
    then show ?thesis
      using False guard rd by (subst bubble_inner.simps) (simp add: Let_def split_beta)
  qed
next
  case 3 then show ?case by (subst bubble_inner.simps) simp
next
  case (2 v) then show ?case by (subst bubble_inner.simps) simp
qed

lemma mset_bpass: "mset (bpass xs) = mset xs"
  by (induction xs rule: bpass.induct) auto

lemma length_bpass: "length (bpass xs) = length xs"
  by (induction xs rule: bpass.induct) auto

lemma set_bpass: "set (bpass xs) = set xs"
  using mset_bpass [of xs] by (metis set_mset_mset)

lemma js_le_Num [simp]: "js_le (Num a) (Num b) \<longleftrightarrow> a \<le> b"
  by (simp add: js_le_def)

lemma js_gt_Num [simp]: "js_gt (Num a) (Num b) \<longleftrightarrow> a > b"
  by (simp add: js_gt_def)

lemma last_bpass_ge:
  "xs \<noteq> [] \<Longrightarrow> set xs \<subseteq> range Num \<Longrightarrow> y \<in> set xs \<Longrightarrow> js_le y (last (bpass xs))"
proof (induction xs arbitrary: y rule: bpass.induct)
  case (1 x y' zs)
  obtain a b where ab: "x = Num a" "y' = Num b" using 1(4) by auto
  have ne: "bpass (x # zs) \<noteq> []" "bpass (y' # zs) \<noteq> []"
    using length_bpass [of "x # zs"] length_bpass [of "y' # zs"] by auto
  show ?case
  proof (cases "js_gt x y'")
    case True
    have m: "js_le x (last (bpass (x # zs)))" using "1.IH"(1) [OF True, of x] 1(4) by simp
    have "js_le y (last (bpass (x # zs)))"
    proof (cases "y = y'")
      case True
      obtain c where c: "last (bpass (x # zs)) = Num c" using m by (auto simp: js_le_def split: jsnum.splits)
      with m ab \<open>js_gt x y'\<close> True show ?thesis by simp
    next
      case False
      with 1(5) have "y \<in> set (x # zs)" by auto
      then show ?thesis using "1.IH"(1) [OF True, of y] 1(4) by simp
    qed
    with True ne show ?thesis by simp
  next
    case False
    have m: "js_le y' (last (bpass (y' # zs)))" using "1.IH"(2) [OF False, of y'] 1(4) by simp
    have "js_le y (last (bpass (y' # zs)))"
    proof (cases "y = x")
      case True
      obtain c where c: "last (bpass (y' # zs)) = Num c" using m by (auto simp: js_le_def split: jsnum.splits)
      with m ab False True show ?thesis by simp
    next
      case False
      with 1(5) have "y \<in> set (y' # zs)" by auto
      then show ?thesis using "1.IH"(2) [OF \<open>\<not> js_gt x y'\<close>, of y] 1(4) by simp
    qed
    with False ne show ?thesis by simp
  qed
next
  case 3 then show ?case by simp
next
  case (2 v) then show ?case by (cases v) auto
qed

lemma bubble_outer_heap:
  "length suf = i \<Longrightarrow> sorted_wrt js_le suf \<Longrightarrow> set pre \<subseteq> range Num \<Longrightarrow>
   (\<forall>x\<in>set pre. \<forall>y\<in>set suf. js_le x y) \<Longrightarrow>
   sorted_wrt js_le (snd (bubble_outer (pre @ suf) i)) \<and>
   mset (snd (bubble_outer (pre @ suf) i)) = mset (pre @ suf)"
proof (induction "length pre" arbitrary: pre suf i)
  case 0
  then show ?case by (subst (1 2) bubble_outer.simps) simp
next
  case (Suc n)
  then have ne: "pre \<noteq> []" by auto
  have inner: "snd (bubble_inner (pre @ suf) i 0) = bpass pre @ suf"
    using bubble_inner_heap [of "[]" 0 suf i pre] Suc.prems(1) by simp
  define m where "m = last (bpass pre)"
  define pre' where "pre' = butlast (bpass pre)"
  have bp: "bpass pre = pre' @ [m]"
  proof -
    have "bpass pre \<noteq> []" using ne length_bpass [of pre] by auto
    then show ?thesis by (simp add: m_def pre'_def)
  qed
  have set_eq: "set pre = insert m (set pre')"
    using set_bpass [of pre] bp by simp
  have len: "n = length pre'"
    using Suc.hyps(2) length_bpass [of pre] bp by simp
  have m_ge: "\<forall>y\<in>set pre. js_le y m"
    using last_bpass_ge [OF ne Suc.prems(3)] by (simp add: m_def)
  have s1: "sorted_wrt js_le (m # suf)"
    using Suc.prems(2,4) set_eq by simp
  have s2: "set pre' \<subseteq> range Num" using Suc.prems(3) set_eq by auto
  have s3: "\<forall>x\<in>set pre'. \<forall>y\<in>set (m # suf). js_le x y"
    using Suc.prems(4) m_ge set_eq by auto
  have IH: "sorted_wrt js_le (snd (bubble_outer (pre' @ m # suf) (i + 1))) \<and>
    mset (snd (bubble_outer (pre' @ m # suf) (i + 1))) = mset (pre' @ m # suf)"
    using Suc.hyps(1) [OF len _ s1 s2 s3, of "i + 1"] Suc.prems(1) by simp
  have unf: "snd (bubble_outer (pre @ suf) i) = snd (bubble_outer (pre' @ m # suf) (i + 1))"
    using ne Suc.prems(1) inner bp
    by (subst bubble_outer.simps) (simp add: split_beta Let_def)
  have "mset (pre' @ m # suf) = mset (pre @ suf)"
    using mset_bpass [of pre] bp by (metis append.assoc append_Cons append_Nil mset_append)
  with IH unf show ?case by simp
qed

lemma sorted_wrt_js_le:
  "sorted_wrt js_le (map Num ys) \<longleftrightarrow> sorted ys"
  by (induction ys) auto

lemma mset_map_Num_ex:
  "mset arr = mset (map Num xs) \<Longrightarrow> \<exists>ys. arr = map Num ys \<and> mset ys = mset xs"
proof -
  assume a: "mset arr = mset (map Num xs)"
  then have "set arr = Num ` set xs" by (metis set_mset_mset set_map)
  then have "\<forall>x\<in>set arr. Num (the_num x) = x" by auto
  then have "map (\<lambda>x. Num (the_num x)) arr = arr" by (simp add: map_idI)
  then have eq: "arr = map Num (map the_num arr)" by (simp add: comp_def)
  from a have "image_mset Num (mset (map the_num arr)) = image_mset Num (mset xs)"
    using eq by (metis mset_map)
  then have "mset (map the_num arr) = mset xs"
    by (metis multiset.inj_map_strong jsnum.inject)
  moreover note eq
  ultimately show ?thesis by blast
qed

lemma bubbleSort_sorts_aux:
  "sorted_wrt js_le (heap (bubbleSort (map Num xs))) \<and> mset (heap (bubbleSort (map Num xs))) = mset (map Num xs)"
  using bubble_outer_heap [of "[]" 0 "map Num xs"]
  by (auto simp: bubbleSort_def split_beta Let_def)

section \<open>Properties of the component: driving a generator to its end\<close>

lemma App_init_after: "App_init (generator_of r) = app_after r 0"
  by (cases "yields r") (simp_all add: App_init_def generator_of_def gen_next_def app_after_def)

lemma sort'_after: "sort' (app_after r k) = app_after r (if k < length (yields r) then Suc k else k)"
proof (cases "k < length (yields r)")
  case False
  then show ?thesis by (simp add: sort'_def app_after_def)
next
  case True
  show ?thesis
  proof (cases "Suc k < length (yields r)")
    case True
    then have "drop (Suc k) (yields r) = yields r ! Suc k # drop (Suc (Suc k)) (yields r)"
      by (simp add: Cons_nth_drop_Suc)
    with True show ?thesis
      by (simp add: sort'_def app_after_def gen_next_def)
  next
    case False
    with True have "drop (Suc k) (yields r) = []" by simp
    with True False show ?thesis
      by (simp add: sort'_def app_after_def gen_next_def)
  qed
qed

lemma sort'_iterate: "(sort' ^^ k) (App_init (generator_of r)) = app_after r (min k (length (yields r)))"
proof (induction k)
  case 0
  show ?case by (simp add: App_init_after)
next
  case (Suc k)
  show ?case
    by (simp add: Suc sort'_after min_def)
qed

lemma sort'_done_fixed: "it_done (sortingState app) \<Longrightarrow> (sort' ^^ m) app = app"
  by (induction m) (simp_all add: sort'_def)

section \<open>Properties of bubbleSort: the steps of a run\<close>

lemma bubble_inner_unfold_stop:
  "\<not> int j < int (length arr) - int i - 1 \<Longrightarrow> bubble_inner arr i j = ([], arr)"
  by (simp add: bubble_inner.simps [of arr i j])

lemma bubble_inner_unfold_swap:
  "int j < int (length arr) - int i - 1 \<Longrightarrow> js_gt (aget arr (int j)) (aget arr (int j + 1)) \<Longrightarrow>
   bubble_inner arr i j =
     (\<lparr>result = arr, colors = Some [int j \<mapsto> ''yellow'', int j + 1 \<mapsto> ''green'']\<rparr> #
      \<lparr>result = swap_adjacent arr j, colors = Some [int j \<mapsto> ''green'', int j + 1 \<mapsto> ''yellow'']\<rparr> #
      fst (bubble_inner (swap_adjacent arr j) i (j + 1)),
      snd (bubble_inner (swap_adjacent arr j) i (j + 1)))"
  by (simp add: bubble_inner.simps [of arr i j] Let_def split_beta)

lemma bubble_inner_unfold_keep:
  "int j < int (length arr) - int i - 1 \<Longrightarrow> \<not> js_gt (aget arr (int j)) (aget arr (int j + 1)) \<Longrightarrow>
   bubble_inner arr i j =
     (\<lparr>result = arr, colors = Some [int j \<mapsto> ''yellow'', int j + 1 \<mapsto> ''yellow'']\<rparr> #
      fst (bubble_inner arr i (j + 1)),
      snd (bubble_inner arr i (j + 1)))"
  by (simp add: bubble_inner.simps [of arr i j] Let_def split_beta)

lemma bubble_outer_unfold_stop: "\<not> i < length arr \<Longrightarrow> bubble_outer arr i = ([], arr)"
  by (simp add: bubble_outer.simps [of arr i])

lemma bubble_outer_unfold_turn:
  "i < length arr \<Longrightarrow>
   bubble_outer arr i =
     (fst (bubble_inner arr i 0) @ fst (bubble_outer (snd (bubble_inner arr i 0)) (i + 1)),
      snd (bubble_outer (snd (bubble_inner arr i 0)) (i + 1)))"
  by (simp add: bubble_outer.simps [of arr i] Let_def split_beta)

lemma bubble_inner_result_length:
  "s \<in> set (fst (bubble_inner arr i j)) \<Longrightarrow> length (result s) = length arr"
proof (induction arr i j rule: bubble_inner.induct)
  case (1 arr i j)
  show ?case
  proof (cases "int j < int (length arr) - int i - 1")
    case False
    with "1.prems" show ?thesis by (simp add: bubble_inner_unfold_stop)
  next
    case guard: True
    then have len: "length (swap_adjacent arr j) = length arr"
      by (simp add: length_swap_adjacent)
    show ?thesis
    proof (cases "js_gt (aget arr (int j)) (aget arr (int j + 1))")
      case True
      with guard "1.prems" "1.IH"(1) [OF guard True refl refl refl] len show ?thesis
        by (auto simp: bubble_inner_unfold_swap)
    next
      case False
      with guard "1.prems" "1.IH"(2) [OF guard False refl] show ?thesis
        by (auto simp: bubble_inner_unfold_keep)
    qed
  qed
qed

lemma length_bubble_outer: "length (snd (bubble_outer arr i)) = length arr"
proof (induction arr i rule: bubble_outer.induct)
  case (1 arr i)
  show ?case
  proof (cases "i < length arr")
    case False
    then show ?thesis by (simp add: bubble_outer_unfold_stop)
  next
    case True
    have "length (snd (bubble_outer (snd (bubble_inner arr i 0)) (i + 1))) =
          length (snd (bubble_inner arr i 0))"
      using "1.IH" [OF True refl] by (metis prod.collapse)
    with True show ?thesis
      by (simp add: bubble_outer_unfold_turn length_bubble_inner)
  qed
qed

lemma bubble_outer_result_length:
  "s \<in> set (fst (bubble_outer arr i)) \<Longrightarrow> length (result s) = length arr"
proof (induction arr i rule: bubble_outer.induct)
  case (1 arr i)
  show ?case
  proof (cases "i < length arr")
    case False
    with "1.prems" show ?thesis by (simp add: bubble_outer_unfold_stop)
  next
    case True
    have IH: "s \<in> set (fst (bubble_outer (snd (bubble_inner arr i 0)) (i + 1))) \<Longrightarrow>
          length (result s) = length (snd (bubble_inner arr i 0))"
      using "1.IH" [OF True refl] by (metis prod.collapse)
    from "1.prems" True consider "s \<in> set (fst (bubble_inner arr i 0))"
      | "s \<in> set (fst (bubble_outer (snd (bubble_inner arr i 0)) (i + 1)))"
      by (auto simp: bubble_outer_unfold_turn)
    then show ?thesis
    proof cases
      case 1 then show ?thesis by (rule bubble_inner_result_length)
    next
      case 2 then show ?thesis using IH by (simp add: length_bubble_inner)
    qed
  qed
qed

lemma bubble_inner_count:
  "length (fst (bubble_inner arr i j)) \<le> 2 * (length arr - i - 1 - j)"
proof (induction arr i j rule: bubble_inner.induct)
  case (1 arr i j)
  show ?case
  proof (cases "int j < int (length arr) - int i - 1")
    case False
    then show ?thesis by (simp add: bubble_inner_unfold_stop)
  next
    case guard: True
    then have len: "length (swap_adjacent arr j) = length arr"
      by (simp add: length_swap_adjacent)
    show ?thesis
    proof (cases "js_gt (aget arr (int j)) (aget arr (int j + 1))")
      case True
      with guard "1.IH"(1) [OF guard True refl refl refl] len show ?thesis
        by (simp add: bubble_inner_unfold_swap)
    next
      case False
      with guard "1.IH"(2) [OF guard False refl] show ?thesis
        by (simp add: bubble_inner_unfold_keep)
    qed
  qed
qed

lemma bubble_outer_count:
  "length (fst (bubble_outer arr i)) \<le> (length arr - i) * (length arr - i - 1)"
proof (induction arr i rule: bubble_outer.induct)
  case (1 arr i)
  show ?case
  proof (cases "i < length arr")
    case False
    then show ?thesis by (simp add: bubble_outer_unfold_stop)
  next
    case True
    let ?n = "length arr"
    have IH: "length (fst (bubble_outer (snd (bubble_inner arr i 0)) (i + 1))) \<le>
          (?n - (i + 1)) * (?n - (i + 1) - 1)"
      using "1.IH" [OF True refl, of "fst (bubble_inner arr i 0)" "snd (bubble_inner arr i 0)"]
      by (simp add: length_bubble_inner)
    have inner: "length (fst (bubble_inner arr i 0)) \<le> 2 * (?n - i - 1 - 0)"
      by (rule bubble_inner_count)
    obtain m where m: "?n - i = Suc m" using True by (metis Suc_diff_Suc)
    have e1: "?n - (i + 1) = m" "?n - i - 1 = m" using m by simp_all
    have "length (fst (bubble_outer arr i)) \<le> 2 * m + m * (m - 1)"
      using IH inner True unfolding e1 by (simp add: bubble_outer_unfold_turn)
    also have "2 * m + m * (m - 1) = Suc m * m"
      by (cases m) simp_all
    finally show ?thesis unfolding m e1 by simp
  qed
qed

lemma bubble_inner_run:
  "bubble_inner arr i j = comparison_run arr [j..<length arr - i - 1]"
proof (induction arr i j rule: bubble_inner.induct)
  case (1 arr i j)
  show ?case
  proof (cases "int j < int (length arr) - int i - 1")
    case False
    then have "[j..<length arr - i - 1] = []" by simp
    with False show ?thesis by (simp add: bubble_inner_unfold_stop)
  next
    case guard: True
    then have len: "length (swap_adjacent arr j) = length arr"
      by (simp add: length_swap_adjacent)
    from guard have up: "[j..<length arr - i - 1] = j # [j + 1..<length arr - i - 1]"
      by (simp add: upt_conv_Cons)
    show ?thesis
    proof (cases "js_gt (aget arr (int j)) (aget arr (int j + 1))")
      case True
      have "bubble_inner (swap_adjacent arr j) i (j + 1) =
          comparison_run (swap_adjacent arr j) [j + 1..<length arr - i - 1]"
        using "1.IH"(1) [OF guard True refl refl refl] len by simp
      with guard True show ?thesis
        unfolding up
        by (simp add: bubble_inner_unfold_swap comparison_block_def after_comparison_def
            swap_needed_def split_beta)
    next
      case False
      have "bubble_inner arr i (j + 1) = comparison_run arr [j + 1..<length arr - i - 1]"
        using "1.IH"(2) [OF guard False refl] .
      with guard False show ?thesis
        unfolding up
        by (simp add: bubble_inner_unfold_keep comparison_block_def after_comparison_def
            swap_needed_def split_beta)
    qed
  qed
qed

lemma comparison_run_append:
  "comparison_run arr (js @ ks) =
     (fst (comparison_run arr js) @ fst (comparison_run (snd (comparison_run arr js)) ks),
      snd (comparison_run (snd (comparison_run arr js)) ks))"
  by (induction js arbitrary: arr) (simp_all add: split_beta)

lemma bubble_outer_run:
  "bubble_outer arr i = comparison_run arr (comparisons (length arr) i)"
proof (induction arr i rule: bubble_outer.induct)
  case (1 arr i)
  show ?case
  proof (cases "i < length arr")
    case False
    then show ?thesis by (simp add: bubble_outer_unfold_stop comparisons_def)
  next
    case True
    let ?arr' = "snd (bubble_inner arr i 0)"
    have IH: "bubble_outer ?arr' (i + 1) = comparison_run ?arr' (comparisons (length arr) (i + 1))"
      using "1.IH" [OF True refl, of "fst (bubble_inner arr i 0)" ?arr']
      by (simp add: length_bubble_inner)
    have c: "comparisons (length arr) i = [0..<length arr - i - 1] @ comparisons (length arr) (i + 1)"
      using True by (simp add: comparisons_def upt_conv_Cons)
    show ?thesis
      unfolding c comparison_run_append
      using True IH by (simp add: bubble_outer_unfold_turn bubble_inner_run)
  qed
qed

lemma bubble_312:
  "yields (bubbleSort [Intg 3, Intg 1, Intg 2]) =
    [\<lparr>result = [Intg 3, Intg 1, Intg 2], colors = Some [0 \<mapsto> ''yellow'', 1 \<mapsto> ''green'']\<rparr>,
     \<lparr>result = [Intg 1, Intg 3, Intg 2], colors = Some [0 \<mapsto> ''green'', 1 \<mapsto> ''yellow'']\<rparr>,
     \<lparr>result = [Intg 1, Intg 3, Intg 2], colors = Some [1 \<mapsto> ''yellow'', 2 \<mapsto> ''green'']\<rparr>,
     \<lparr>result = [Intg 1, Intg 2, Intg 3], colors = Some [1 \<mapsto> ''green'', 2 \<mapsto> ''yellow'']\<rparr>,
     \<lparr>result = [Intg 1, Intg 2, Intg 3], colors = Some [0 \<mapsto> ''yellow'', 1 \<mapsto> ''yellow'']\<rparr>]"
  by (simp add: bubbleSort_def bubble_outer.simps bubble_inner.simps aget_def aset_def
        swap_adjacent_def js_gt_def Let_def)

lemma bubble_312_ret:
  "ret (bubbleSort [Intg 3, Intg 1, Intg 2]) = \<lparr>result = [Intg 1, Intg 2, Intg 3], colors = None\<rparr>"
  by (simp add: bubbleSort_def bubble_outer.simps bubble_inner.simps aget_def aset_def
        swap_adjacent_def js_gt_def Let_def)

lemma length_comparisons_from: "length (comparisons n i) * 2 = (n - i) * (n - i - 1)"
proof (induction "n - i" arbitrary: i)
  case 0
  then show ?case by (simp add: comparisons_def)
next
  case (Suc m)
  then have lt: "i < n" and m: "n - (i + 1) = m" "n - i - 1 = m" "n - i = Suc m" by simp_all
  have c: "comparisons n i = [0..<n - i - 1] @ comparisons n (i + 1)"
    using lt by (simp add: comparisons_def upt_conv_Cons)
  have "length (comparisons n (i + 1)) * 2 = (n - (i + 1)) * (n - (i + 1) - 1)"
    using Suc.hyps(1) [of "i + 1", OF m(1) [symmetric]] .
  moreover have "n - (i + 1) - 1 = m - 1" using m by arith
  ultimately have "length (comparisons n (i + 1)) * 2 = m * (m - 1)"
    using m(1) by simp
  moreover have "m * 2 + m * (m - 1) = Suc m * m"
    by (cases m) simp_all
  ultimately show ?case unfolding c m by simp
qed

lemma sortingState_at_end:
  "sortingState ((sort' ^^ length (yields r)) (App_init (generator_of r))) =
     \<lparr>it_value = Some (ret r), it_done = True\<rparr>"
  by (simp add: sort'_iterate app_after_def)

lemma sortingState_before_end:
  "k < length (yields r) \<Longrightarrow>
   sortingState ((sort' ^^ k) (App_init (generator_of r))) =
     \<lparr>it_value = Some (yields r ! k), it_done = False\<rparr>"
  by (simp add: sort'_iterate app_after_def)

text \<open>
  Claim C4. A run of \<open>bubbleSort\<close> on \<open>arr\<close> is the run of its comparisons, in the order
  of the loops, the first made on \<open>arr\<close> itself and each later one on the array that the
  one before it left: its steps are the steps of these comparisons and nothing else,
  and the value it returns is the array that the last comparison left, without
  colours. A comparison on an array where no swap is needed has exactly one step,
  which shows that array; a comparison where a swap is needed has exactly two, the
  first showing the array before the exchange with the two indices in different
  colours, the second showing it after the exchange. There are \<open>n (n - 1) / 2\<close>
  comparisons. On \<open>[3, 1, 2]\<close> the first step marks index 0 yellow and index 1 green,
  the second step shows \<open>[1, 3, 2]\<close>, the returned value is \<open>[1, 2, 3]\<close> without colours,
  and it reaches the component with the done signal.
\<close>

theorem bubbleSort_yields_per_comparison:
  "yields (bubbleSort arr) = fst (comparison_run arr (comparisons (length arr) 0)) \<and>
   ret (bubbleSort arr) =
     \<lparr>result = snd (comparison_run arr (comparisons (length arr) 0)), colors = None\<rparr> \<and>
   length (comparison_block a j) = (if swap_needed a j then 2 else 1) \<and>
   result (hd (comparison_block a j)) = a \<and>
   result (last (comparison_block a j)) = after_comparison a j \<and>
   length (comparisons (length arr) 0) * 2 = length arr * (length arr - 1) \<and>
   colors (yields (bubbleSort [Intg 3, Intg 1, Intg 2]) ! 0) =
     Some [0 \<mapsto> ''yellow'', 1 \<mapsto> ''green''] \<and>
   result (yields (bubbleSort [Intg 3, Intg 1, Intg 2]) ! 1) = [Intg 1, Intg 3, Intg 2] \<and>
   colors (yields (bubbleSort [Intg 3, Intg 1, Intg 2]) ! 1) =
     Some [0 \<mapsto> ''green'', 1 \<mapsto> ''yellow''] \<and>
   sortingState ((sort' ^^ length (yields (bubbleSort [Intg 3, Intg 1, Intg 2])))
       (App_init (generator_of (bubbleSort [Intg 3, Intg 1, Intg 2])))) =
     \<lparr>it_value = Some \<lparr>result = [Intg 1, Intg 2, Intg 3], colors = None\<rparr>, it_done = True\<rparr>"
proof -
  have "length (comparisons (length arr) 0) * 2 = length arr * (length arr - 1)"
    using length_comparisons_from [of "length arr" 0] by simp
  moreover have "sortingState ((sort' ^^ length (yields (bubbleSort [Intg 3, Intg 1, Intg 2])))
       (App_init (generator_of (bubbleSort [Intg 3, Intg 1, Intg 2])))) =
     \<lparr>it_value = Some \<lparr>result = [Intg 1, Intg 2, Intg 3], colors = None\<rparr>, it_done = True\<rparr>"
    unfolding sortingState_at_end by (simp add: bubble_312_ret)
  moreover have "yields (bubbleSort arr) = fst (comparison_run arr (comparisons (length arr) 0))"
    "ret (bubbleSort arr) =
       \<lparr>result = snd (comparison_run arr (comparisons (length arr) 0)), colors = None\<rparr>"
    by (simp_all add: bubbleSort_def bubble_outer_run split_beta)
  moreover have "length (comparison_block a j) = (if swap_needed a j then 2 else 1)"
    "result (hd (comparison_block a j)) = a"
    "result (last (comparison_block a j)) = after_comparison a j"
    by (simp_all add: comparison_block_def after_comparison_def)
  ultimately show ?thesis
    by (simp add: bubble_312)
qed

theorem bubbleSort_yields_per_comparison_witness:
  "comparisons (length [Intg 2, Intg 1, Intg 2]) 0 = [0, 1, 0] \<and>
   swap_needed [Intg 2, Intg 1, Intg 2] 0 \<and>
   \<not> swap_needed [Intg 1, Intg 2, Intg 2] 1 \<and>
   \<not> swap_needed [Intg 1, Intg 2, Intg 2] 0 \<and>
   yields (bubbleSort [Intg 2, Intg 1, Intg 2]) =
     [\<lparr>result = [Intg 2, Intg 1, Intg 2], colors = Some [0 \<mapsto> ''yellow'', 1 \<mapsto> ''green'']\<rparr>,
      \<lparr>result = [Intg 1, Intg 2, Intg 2], colors = Some [0 \<mapsto> ''green'', 1 \<mapsto> ''yellow'']\<rparr>,
      \<lparr>result = [Intg 1, Intg 2, Intg 2], colors = Some [1 \<mapsto> ''yellow'', 2 \<mapsto> ''yellow'']\<rparr>,
      \<lparr>result = [Intg 1, Intg 2, Intg 2], colors = Some [0 \<mapsto> ''yellow'', 1 \<mapsto> ''yellow'']\<rparr>] \<and>
   ret (bubbleSort [Intg 2, Intg 1, Intg 2]) =
     \<lparr>result = [Intg 1, Intg 2, Intg 2], colors = None\<rparr>"
proof -
  have c: "comparisons (length [Intg 2, Intg 1, Intg 2]) 0 = [0, 1, 0]"
    by (simp add: comparisons_def upt_rec)
  have s: "swap_needed [Intg 2, Intg 1, Intg 2] 0" "\<not> swap_needed [Intg 1, Intg 2, Intg 2] 1"
    "\<not> swap_needed [Intg 1, Intg 2, Intg 2] 0"
    "swap_adjacent [Intg 2, Intg 1, Intg 2] 0 = [Intg 1, Intg 2, Intg 2]"
    by (simp_all add: swap_needed_def swap_adjacent_def aget_def aset_def)
  from bubbleSort_yields_per_comparison [where arr = "[Intg 2, Intg 1, Intg 2]"
      and a = "[Intg 2, Intg 1, Intg 2]" and j = 0] s
  show ?thesis
    unfolding c by (simp add: comparison_block_def after_comparison_def)
qed

section \<open>Properties of merge and mergeSort\<close>

lemma merge_while2_run:
  "merge_while2 arr middle left acc =
     (map (selected_step arr middle) [left..middle], max left (middle + 1),
      acc @ slice arr left middle)"
proof (induction arr middle left acc rule: merge_while2.induct)
  case (1 arr middle left acc)
  show ?case
  proof (cases "left \<le> middle")
    case False
    then show ?thesis by (simp add: merge_while2.simps [of arr middle left] slice_def)
  next
    case True
    then have up: "[left..middle] = left # [left + 1..middle]" by (simp add: upto_rec1)
    from True "1.IH" [OF True refl prod.collapse]
    show ?thesis
      by (simp add: merge_while2.simps [of arr middle left] up slice_def push_def selected_step_def)
  qed
qed

lemma merge_while3_run:
  "merge_while3 arr middle j right acc =
     (map (selected_step arr middle) [right..j], max right (j + 1), acc @ slice arr right j)"
proof (induction arr middle j right acc rule: merge_while3.induct)
  case (1 arr middle j right acc)
  show ?case
  proof (cases "right \<le> j")
    case False
    then show ?thesis by (simp add: merge_while3.simps [of arr middle j right] slice_def)
  next
    case True
    then have up: "[right..j] = right # [right + 1..j]" by (simp add: upto_rec1)
    from True "1.IH" [OF True refl prod.collapse]
    show ?thesis
      by (simp add: merge_while3.simps [of arr middle j right] up slice_def push_def selected_step_def)
  qed
qed

lemma merge_while1_stop:
  "\<not> (left \<le> middle \<and> right \<le> j) \<Longrightarrow>
   merge_while1 arr middle j left right acc = ([], left, right, acc)"
  by (subst merge_while1.simps) auto

lemma merge_pushes_stop:
  "\<not> (left \<le> middle \<and> right \<le> j) \<Longrightarrow>
   merge_pushes arr middle j left right acc =
     (map (selected_step arr middle) ([left..middle] @ [right..j]),
      acc @ slice arr left middle @ slice arr right j)"
  by (simp add: merge_pushes_def merge_while1_stop merge_while2_run merge_while3_run)

lemma merge_pushes_left:
  "left \<le> middle \<Longrightarrow> right \<le> j \<Longrightarrow> js_le (aget arr left) (aget arr right) \<Longrightarrow>
   merge_pushes arr middle j left right acc =
     (selected_step arr middle left # fst (merge_pushes arr middle j (left + 1) right (acc @ [aget arr left])),
      snd (merge_pushes arr middle j (left + 1) right (acc @ [aget arr left])))"
  by (simp add: merge_pushes_def merge_while1.simps [of arr middle j left right]
      split_beta push_def selected_step_def)

lemma merge_pushes_right:
  "left \<le> middle \<Longrightarrow> right \<le> j \<Longrightarrow> \<not> js_le (aget arr left) (aget arr right) \<Longrightarrow>
   merge_pushes arr middle j left right acc =
     (selected_step arr middle right # fst (merge_pushes arr middle j left (right + 1) (acc @ [aget arr right])),
      snd (merge_pushes arr middle j left (right + 1) (acc @ [aget arr right])))"
  by (simp add: merge_pushes_def merge_while1.simps [of arr middle j left right]
      split_beta push_def selected_step_def)

lemma lmerge_Nil2 [simp]: "lmerge xs [] = xs"
  by (cases xs) simp_all

lemma merge_pushes_run:
  "\<exists>idxs. merge_pushes arr middle j left right acc =
       (map (selected_step arr middle) idxs, acc @ map (aget arr) idxs) \<and>
     mset idxs = mset ([left..middle] @ [right..j]) \<and>
     map (aget arr) idxs = lmerge (slice arr left middle) (slice arr right j)"
proof (induction arr middle j left right acc rule: merge_while1.induct)
  case (1 arr middle j left right acc)
  show ?case
  proof (cases "left \<le> middle \<and> right \<le> j")
    case False
    then have "slice arr left middle = [] \<or> slice arr right j = []"
      by (auto simp: slice_def)
    then have "map (aget arr) ([left..middle] @ [right..j]) =
        lmerge (slice arr left middle) (slice arr right j)"
      by (auto simp: slice_def)
    with False show ?thesis
      by (intro exI [of _ "[left..middle] @ [right..j]"]) (simp add: merge_pushes_stop slice_def)
  next
    case guard: True
    then have up: "[left..middle] = left # [left + 1..middle]" "[right..j] = right # [right + 1..j]"
      by (simp_all add: upto_rec1)
    show ?thesis
    proof (cases "js_le (aget arr left) (aget arr right)")
      case True
      from "1.IH"(1) [OF guard True refl prod.collapse]
      obtain idxs where i: "merge_pushes arr middle j (left + 1) right (acc @ [aget arr left]) =
          (map (selected_step arr middle) idxs, (acc @ [aget arr left]) @ map (aget arr) idxs)"
        "mset idxs = mset ([left + 1..middle] @ [right..j])"
        "map (aget arr) idxs = lmerge (slice arr (left + 1) middle) (slice arr right j)"
        by (auto simp: push_def)
      show ?thesis
        using guard True i
        by (intro exI [of _ "left # idxs"]) (simp add: merge_pushes_left up slice_def)
    next
      case False
      from "1.IH"(2) [OF guard False refl prod.collapse]
      obtain idxs where i: "merge_pushes arr middle j left (right + 1) (acc @ [aget arr right]) =
          (map (selected_step arr middle) idxs, (acc @ [aget arr right]) @ map (aget arr) idxs)"
        "mset idxs = mset ([left..middle] @ [right + 1..j])"
        "map (aget arr) idxs = lmerge (slice arr left middle) (slice arr (right + 1) j)"
        by (auto simp: push_def)
      show ?thesis
        using guard False i
        by (intro exI [of _ "right # idxs"]) (simp add: merge_pushes_right up slice_def)
    qed
  qed
qed

lemma write_prefix_Suc:
  "write_prefix arr i sorted' (Suc k) =
     aset (write_prefix arr i sorted' k) (i + int k) (sorted' ! k)"
  by (simp add: write_prefix_def)

lemma merge_for_run:
  "k \<le> length sorted' \<Longrightarrow>
   merge_for (write_prefix arr i sorted' k) i sorted' k =
     (map (written_step arr i sorted') [k..<length sorted'],
      write_prefix arr i sorted' (length sorted'))"
proof (induction "length sorted' - k" arbitrary: k)
  case 0
  then show ?case by (simp add: merge_for.simps [of _ i sorted' k])
next
  case (Suc n)
  then have lt: "k < length sorted'" by simp
  then have up: "[k..<length sorted'] = k # [Suc k..<length sorted']"
    by (simp add: upt_conv_Cons)
  have "merge_for (write_prefix arr i sorted' (Suc k)) i sorted' (Suc k) =
     (map (written_step arr i sorted') [Suc k..<length sorted'],
      write_prefix arr i sorted' (length sorted'))"
    using Suc.hyps(1) [of "Suc k"] Suc.hyps(2) lt by simp
  with lt show ?case
    by (subst merge_for.simps) (simp add: up write_prefix_Suc written_step_def)
qed

lemma aset_app_length: "aset (pre @ x # rest) (int (length pre)) v = pre @ v # rest"
  by (simp add: aset_def)

lemma write_prefix_in_range:
  "k \<le> length sorted' \<Longrightarrow> length sorted' \<le> length mid \<Longrightarrow>
   write_prefix (pre @ mid @ suf) (int (length pre)) sorted' k =
     pre @ take k sorted' @ drop k mid @ suf"
proof (induction k)
  case 0
  show ?case by (simp add: write_prefix_def)
next
  case (Suc k)
  then have k: "k < length sorted'" "k < length mid" by simp_all
  have "aset (pre @ take k sorted' @ drop k mid @ suf) (int (length pre) + int k) (sorted' ! k) =
        pre @ take (Suc k) sorted' @ drop (Suc k) mid @ suf"
  proof -
    have d: "drop k mid = mid ! k # drop (Suc k) mid" using k by (simp add: Cons_nth_drop_Suc)
    have e: "pre @ take k sorted' @ drop k mid @ suf =
          (pre @ take k sorted') @ mid ! k # (drop (Suc k) mid @ suf)"
      by (simp add: d)
    have l: "int (length pre) + int k = int (length (pre @ take k sorted'))"
      using k by simp
    have "aset (pre @ take k sorted' @ drop k mid @ suf) (int (length pre) + int k) (sorted' ! k) =
        (pre @ take k sorted') @ sorted' ! k # (drop (Suc k) mid @ suf)"
      unfolding e l by (rule aset_app_length)
    then show ?thesis using k by (simp add: take_Suc_conv_app_nth)
  qed
  with Suc show ?case by (simp add: write_prefix_Suc)
qed

lemma slice_in_range:
  "slice (pre @ mid @ suf) (int (length pre)) (int (length pre) + int (length mid) - 1) = mid"
proof (induction mid arbitrary: pre)
  case Nil
  show ?case by (simp add: slice_def)
next
  case (Cons x mid)
  have "slice ((pre @ [x]) @ mid @ suf) (int (length (pre @ [x])))
          (int (length (pre @ [x])) + int (length mid) - 1) = mid"
    by (rule Cons.IH)
  then have "slice (pre @ x # mid @ suf) (int (length pre) + 1) (int (length pre) + int (length mid)) = mid"
    by (simp add: add.commute)
  moreover have "[int (length pre)..int (length pre) + int (length (x # mid)) - 1] =
     int (length pre) # [int (length pre) + 1..int (length pre) + int (length mid)]"
    by (simp add: upto_rec1)
  ultimately show ?case
    by (simp add: slice_def aget_app_length)
qed

lemma mset_lmerge: "mset (lmerge xs ys) = mset xs + mset ys"
  by (induction xs ys rule: lmerge.induct) simp_all

lemma set_lmerge: "set (lmerge xs ys) = set xs \<union> set ys"
  using mset_lmerge [of xs ys] by (metis set_mset_mset set_mset_union)

lemma js_le_trans: "js_le a b \<Longrightarrow> js_le b c \<Longrightarrow> js_le a c"
  by (auto simp: js_le_def split: jsnum.splits)

lemma js_le_total: "\<not> js_le (Num a) (Num b) \<Longrightarrow> js_le (Num b) (Num a)"
  by simp

lemma sorted_lmerge:
  "set xs \<subseteq> range Num \<Longrightarrow> set ys \<subseteq> range Num \<Longrightarrow> sorted_wrt js_le xs \<Longrightarrow> sorted_wrt js_le ys \<Longrightarrow>
   sorted_wrt js_le (lmerge xs ys)"
proof (induction xs ys rule: lmerge.induct)
  case (1 x xs y ys)
  show ?case
  proof (cases "js_le x y")
    case True
    have "\<forall>z\<in>set xs \<union> set (y # ys). js_le x z"
      using "1.prems"(3,4) True by (auto intro: js_le_trans)
    moreover have "sorted_wrt js_le (lmerge xs (y # ys))"
      using "1.IH"(1) [OF True] "1.prems" by simp
    ultimately show ?thesis using True by (simp add: set_lmerge)
  next
    case False
    then have yx: "js_le y x" using "1.prems"(1,2) by (auto simp: js_le_total)
    have "\<forall>z\<in>set (x # xs) \<union> set ys. js_le y z"
      using "1.prems"(3,4) yx by (auto intro: js_le_trans)
    moreover have "sorted_wrt js_le (lmerge (x # xs) ys)"
      using "1.IH"(2) [OF False] "1.prems" by simp
    ultimately show ?thesis using False by (simp add: set_lmerge)
  qed
qed simp_all

lemma merge_unfold:
  "merge arr i middle j =
     (let (ys, sorted3) = merge_pushes arr middle j i (middle + 1) [];
          (ys4, arr') = merge_for arr i sorted3 0
      in \<lparr>yields = ys @ ys4, ret = \<lparr>result = arr', colors = None\<rparr>, heap = arr'\<rparr>)"
  by (simp add: merge_def merge_pushes_def split_beta Let_def)

lemma merge_run:
  "\<exists>idxs. yields (merge arr i middle j) =
       map (selected_step arr middle) idxs @
       map (written_step arr i (map (aget arr) idxs)) [0..<length idxs] \<and>
     mset idxs = mset ([i..middle] @ [middle + 1..j]) \<and>
     map (aget arr) idxs = lmerge (slice arr i middle) (slice arr (middle + 1) j) \<and>
     heap (merge arr i middle j) = write_prefix arr i (map (aget arr) idxs) (length idxs) \<and>
     ret (merge arr i middle j) = \<lparr>result = heap (merge arr i middle j), colors = None\<rparr>"
proof -
  from merge_pushes_run [of arr middle j i "middle + 1" "[]"]
  obtain idxs where p: "merge_pushes arr middle j i (middle + 1) [] =
       (map (selected_step arr middle) idxs, map (aget arr) idxs)"
    and m: "mset idxs = mset ([i..middle] @ [middle + 1..j])"
    and l: "map (aget arr) idxs = lmerge (slice arr i middle) (slice arr (middle + 1) j)"
    by auto
  have f: "merge_for arr i (map (aget arr) idxs) 0 =
     (map (written_step arr i (map (aget arr) idxs)) [0..<length idxs],
      write_prefix arr i (map (aget arr) idxs) (length idxs))"
    using merge_for_run [of 0 "map (aget arr) idxs" arr i] by (simp add: write_prefix_def)
  have "merge arr i middle j =
      \<lparr>yields = map (selected_step arr middle) idxs @
         map (written_step arr i (map (aget arr) idxs)) [0..<length idxs],
       ret = \<lparr>result = write_prefix arr i (map (aget arr) idxs) (length idxs), colors = None\<rparr>,
       heap = write_prefix arr i (map (aget arr) idxs) (length idxs)\<rparr>"
    by (simp add: merge_unfold p f)
  with m l show ?thesis
    by (intro exI [of _ idxs]) simp
qed

lemma merge_in_range:
  assumes arr_def: "arr = pre @ m1 @ m2 @ suf"
    and "i = int (length pre)" "middle = i + int (length m1) - 1" "j = middle + int (length m2)"
  shows "heap (merge arr i middle j) = pre @ lmerge m1 m2 @ suf"
    and "s \<in> set (yields (merge arr i middle j)) \<Longrightarrow> length (result s) = length arr"
proof -
  from merge_run [of arr i middle j]
  obtain idxs where y: "yields (merge arr i middle j) =
       map (selected_step arr middle) idxs @
       map (written_step arr i (map (aget arr) idxs)) [0..<length idxs]"
    and l: "map (aget arr) idxs = lmerge (slice arr i middle) (slice arr (middle + 1) j)"
    and h: "heap (merge arr i middle j) = write_prefix arr i (map (aget arr) idxs) (length idxs)"
    by auto
  have s1: "slice arr i middle = m1"
    using slice_in_range [of pre m1 "m2 @ suf"] assms(2,3) by (simp add: arr_def)
  have e: "middle + 1 = int (length (pre @ m1))"
    "j = int (length (pre @ m1)) + int (length m2) - 1"
    using assms(2,3,4) by simp_all
  have "slice ((pre @ m1) @ m2 @ suf) (middle + 1) j = m2"
    unfolding e by (rule slice_in_range)
  then have s2: "slice arr (middle + 1) j = m2"
    by (simp add: arr_def)
  define sorted3 where "sorted3 = lmerge m1 m2"
  have l': "map (aget arr) idxs = sorted3" using l s1 s2 by (simp add: sorted3_def)
  have len: "length sorted3 = length (m1 @ m2)"
    using mset_lmerge [of m1 m2] unfolding sorted3_def by (metis mset_append size_mset)
  have li: "length idxs = length sorted3" using l' by (metis length_map)
  have wp: "k \<le> length sorted3 \<Longrightarrow>
      write_prefix arr i sorted3 k = pre @ take k sorted3 @ drop k (m1 @ m2) @ suf" for k
    using write_prefix_in_range [of k sorted3 "m1 @ m2" pre suf] len assms(2)
    by (simp add: arr_def)
  show "heap (merge arr i middle j) = pre @ lmerge m1 m2 @ suf"
    using h wp [of "length sorted3"] len unfolding l' li by (simp add: sorted3_def)
  show "length (result s) = length arr" if "s \<in> set (yields (merge arr i middle j))"
  proof -
    from that y consider idx where "s = selected_step arr middle idx"
      | k where "k < length sorted3" "s = written_step arr i sorted3 k"
      unfolding l' li by auto
    then show ?thesis
    proof cases
      case 1
      then show ?thesis by (simp add: selected_step_def)
    next
      case 2
      then show ?thesis using wp [of k] len by (simp add: written_step_def arr_def)
    qed
  qed
qed

lemma mergeSort_stop:
  "j \<le> i \<Longrightarrow> mergeSort arr i j =
     \<lparr>yields = [\<lparr>result = arr,
          colors = Some [i \<mapsto> ''yellow'', (j - i) div 2 + i \<mapsto> ''blue'', j \<mapsto> ''green'']\<rparr>],
      ret = \<lparr>result = arr, colors = None\<rparr>, heap = arr\<rparr>"
  by (simp add: mergeSort.simps [of arr i j] Let_def)

lemma mergeSort_split:
  "\<not> j \<le> i \<Longrightarrow> mergeSort arr i j =
     (let middle = (j - i) div 2 + i;
          r1 = mergeSort arr i middle;
          r2 = mergeSort (heap r1) (middle + 1) j;
          r3 = merge (heap r2) i middle j
      in \<lparr>yields =
            \<lparr>result = arr,
              colors = Some [i \<mapsto> ''yellow'', middle \<mapsto> ''blue'', j \<mapsto> ''green'']\<rparr> #
            yields r1 @ yields r2 @ yields r3,
          ret = \<lparr>result = heap r3, colors = None\<rparr>,
          heap = heap r3\<rparr>)"
  by (simp add: mergeSort.simps [of arr i j] Let_def)

lemma mergeSort_in_range:
  "arr = pre @ mid @ suf \<Longrightarrow> i = int (length pre) \<Longrightarrow> int (length mid) = j - i + 1 \<Longrightarrow>
   \<exists>mid'. heap (mergeSort arr i j) = pre @ mid' @ suf \<and> mset mid' = mset mid \<and>
     (set mid \<subseteq> range Num \<longrightarrow> sorted_wrt js_le mid') \<and>
     (\<forall>s\<in>set (yields (mergeSort arr i j)). length (result s) = length arr)"
proof (induction arr i j arbitrary: pre mid suf rule: mergeSort.induct)
  case (1 arr i j)
  show ?case
  proof (cases "j \<le> i")
    case True
    with "1.prems"(3) have "length mid \<le> 1" by simp
    then have "sorted_wrt js_le mid"
      by (cases mid) simp_all
    with True "1.prems"(1) show ?thesis
      by (intro exI [of _ mid]) (simp add: mergeSort_stop)
  next
    case False
    define middle where "middle = (j - i) div 2 + i"
    define m1 where "m1 = take (nat (middle - i + 1)) mid"
    define m2 where "m2 = drop (nat (middle - i + 1)) mid"
    have mid: "mid = m1 @ m2" by (simp add: m1_def m2_def)
    have bounds: "i \<le> middle" "middle < j" using False by (simp_all add: middle_def)
    have l1: "int (length m1) = middle - i + 1"
      using bounds "1.prems"(3) by (simp add: m1_def)
    have l2: "int (length m2) = j - middle"
      using bounds "1.prems"(3) by (simp add: m2_def)
    define r1 where "r1 = mergeSort arr i middle"
    define r2 where "r2 = mergeSort (heap r1) (middle + 1) j"
    define r3 where "r3 = merge (heap r2) i middle j"
    have unf: "mergeSort arr i j =
        \<lparr>yields = \<lparr>result = arr,
              colors = Some [i \<mapsto> ''yellow'', middle \<mapsto> ''blue'', j \<mapsto> ''green'']\<rparr> #
            yields r1 @ yields r2 @ yields r3,
          ret = \<lparr>result = heap r3, colors = None\<rparr>, heap = heap r3\<rparr>"
      using False by (simp add: mergeSort_split Let_def middle_def r1_def r2_def r3_def)
    from "1.IH"(1) [OF middle_def refl False, of pre m1 "m2 @ suf"] "1.prems"(1,2) l1
    obtain m1' where h1: "heap r1 = pre @ m1' @ m2 @ suf" and ms1: "mset m1' = mset m1"
      and so1: "set m1 \<subseteq> range Num \<longrightarrow> sorted_wrt js_le m1'"
      and y1: "\<forall>s\<in>set (yields r1). length (result s) = length arr"
      by (auto simp: mid r1_def)
    have len1: "length m1' = length m1" using ms1 by (metis size_mset)
    from "1.IH"(2) [OF middle_def refl False r1_def, of "pre @ m1'" m2 suf] h1 "1.prems"(2) l1 l2 len1
    obtain m2' where h2: "heap r2 = pre @ m1' @ m2' @ suf" and ms2: "mset m2' = mset m2"
      and so2: "set m2 \<subseteq> range Num \<longrightarrow> sorted_wrt js_le m2'"
      and y2: "\<forall>s\<in>set (yields r2). length (result s) = length (heap r1)"
      by (auto simp: r2_def)
    have len2: "length m2' = length m2" using ms2 by (metis size_mset)
    have a: "i = int (length pre)" "middle = i + int (length m1') - 1" "j = middle + int (length m2')"
      using "1.prems"(2) l1 l2 len1 len2 by simp_all
    have h3: "heap r3 = pre @ lmerge m1' m2' @ suf"
      unfolding r3_def h2 by (rule merge_in_range(1) [OF refl a])
    have y3: "\<forall>s\<in>set (yields r3). length (result s) = length (heap r2)"
      unfolding r3_def h2 using merge_in_range(2) [OF refl a] by blast
    have lens: "length (heap r1) = length arr" "length (heap r2) = length arr"
      using h1 h2 len1 len2 "1.prems"(1) by (simp_all add: mid)
    have "mset (lmerge m1' m2') = mset mid"
      by (simp add: mset_lmerge ms1 ms2 mid)
    moreover have "sorted_wrt js_le (lmerge m1' m2')" if "set mid \<subseteq> range Num"
    proof -
      from that have n: "set m1 \<subseteq> range Num" "set m2 \<subseteq> range Num" by (simp_all add: mid)
      then have "set m1' \<subseteq> range Num" "set m2' \<subseteq> range Num"
        using ms1 ms2 by (metis set_mset_mset)+
      with n so1 so2 show ?thesis by (intro sorted_lmerge) simp_all
    qed
    moreover have "\<forall>s\<in>set (yields (mergeSort arr i j)). length (result s) = length arr"
      using y1 y2 y3 lens by (auto simp: unf)
    ultimately show ?thesis
      using h3 by (intro exI [of _ "lmerge m1' m2'"]) (simp add: unf)
  qed
qed

lemma length_yields_merge:
  "length (yields (merge arr i middle j)) = 2 * (nat (middle - i + 1) + nat (j - middle))"
proof -
  from merge_run [of arr i middle j]
  obtain idxs where y: "yields (merge arr i middle j) =
       map (selected_step arr middle) idxs @
       map (written_step arr i (map (aget arr) idxs)) [0..<length idxs]"
    and m: "mset idxs = mset ([i..middle] @ [middle + 1..j])"
    by auto
  have "length idxs = length ([i..middle] @ [middle + 1..j])"
    using m by (metis size_mset)
  then show ?thesis unfolding y by simp
qed

lemma length_yields_mergeSort:
  "length (yields (mergeSort arr i j)) = mergeSort_count (nat (j - i + 1))"
proof (induction arr i j rule: mergeSort.induct)
  case (1 arr i j)
  show ?case
  proof (cases "j \<le> i")
    case True
    then have "nat (j - i + 1) \<le> 1" by simp
    then have "mergeSort_count (nat (j - i + 1)) = 1"
      by (subst mergeSort_count.simps) simp
    with True show ?thesis
      by (simp add: mergeSort_stop)
  next
    case False
    define middle where "middle = (j - i) div 2 + i"
    define r1 where "r1 = mergeSort arr i middle"
    define n where "n = nat (j - i + 1)"
    have n: "\<not> n \<le> 1" using False by (simp add: n_def)
    have s1: "nat (middle - i + 1) = (n + 1) div 2"
      using False unfolding middle_def n_def by (simp add: nat_div_distrib nat_add_distrib) 
    have s2: "nat (j - (middle + 1) + 1) = n div 2" "nat (j - middle) = n div 2"
      using False unfolding middle_def n_def by (simp_all add: nat_div_distrib) 
    have c1: "length (yields r1) = mergeSort_count ((n + 1) div 2)"
      using "1.IH"(1) [OF middle_def refl False] by (simp add: r1_def s1)
    have c2: "length (yields (mergeSort (heap r1) (middle + 1) j)) = mergeSort_count (n div 2)"
      using "1.IH"(2) [OF middle_def refl False r1_def] by (simp add: s2)
    have c3: "length (yields (merge (heap (mergeSort (heap r1) (middle + 1) j)) i middle j)) = 2 * n"
    proof -
      have "(n + 1) div 2 + n div 2 = n" by presburger
      then show ?thesis unfolding length_yields_merge s1 s2 by simp
    qed
    show ?thesis
      using False n c1 c2 c3 unfolding n_def [symmetric]
      by (simp add: mergeSort_split Let_def middle_def [symmetric] r1_def [symmetric] 
            mergeSort_count.simps [of n])
  qed
qed

lemma ret_mergeSort:
  "ret (mergeSort arr i j) = \<lparr>result = heap (mergeSort arr i j), colors = None\<rparr>"
  by (cases "j \<le> i") (simp_all add: mergeSort_stop mergeSort_split Let_def)

lemma colors_yields_merge:
  "s \<in> set (yields (merge arr i middle j)) \<Longrightarrow> colors s \<noteq> None"
  using merge_run [of arr i middle j] by (auto simp: selected_step_def written_step_def)

lemma colors_yields_mergeSort:
  "s \<in> set (yields (mergeSort arr i j)) \<Longrightarrow> colors s \<noteq> None"
proof (induction arr i j rule: mergeSort.induct)
  case (1 arr i j)
  show ?case
  proof (cases "j \<le> i")
    case True
    with "1.prems" show ?thesis by (auto simp: mergeSort_stop)
  next
    case False
    define middle where "middle = (j - i) div 2 + i"
    define r1 where "r1 = mergeSort arr i middle"
    define r2 where "r2 = mergeSort (heap r1) (middle + 1) j"
    from "1.prems" False consider "s = \<lparr>result = arr,
          colors = Some [i \<mapsto> ''yellow'', middle \<mapsto> ''blue'', j \<mapsto> ''green'']\<rparr>"
      | "s \<in> set (yields r1)" | "s \<in> set (yields r2)"
      | "s \<in> set (yields (merge (heap r2) i middle j))"
      by (auto simp: mergeSort_split Let_def middle_def r1_def r2_def)
    then show ?thesis
    proof cases
      case 1 then show ?thesis by simp
    next
      case 2 then show ?thesis using "1.IH"(1) [OF middle_def refl False] by (simp add: r1_def)
    next
      case 3 then show ?thesis using "1.IH"(2) [OF middle_def refl False r1_def] by (simp add: r2_def)
    next
      case 4 then show ?thesis by (rule colors_yields_merge)
    qed
  qed
qed

lemma mergeSort_default_sorts:
  "\<exists>ys. heap (mergeSort_default (map Num xs)) = map Num ys \<and> sorted ys \<and> mset ys = mset xs"
proof -
  from mergeSort_in_range [of "map Num xs" "[]" "map Num xs" "[]" 0 "int (length xs) - 1"]
  obtain mid' where h: "heap (mergeSort_default (map Num xs)) = mid'"
    and m: "mset mid' = mset (map Num xs)" and s: "sorted_wrt js_le mid'"
    by (auto simp: mergeSort_default_def)
  from mset_map_Num_ex [OF m] obtain ys where ys: "mid' = map Num ys" "mset ys = mset xs"
    by blast
  with s have "sorted ys" by (simp add: sorted_wrt_js_le)
  with h ys show ?thesis by blast
qed

lemma bubbleSort_sorts:
  "\<exists>ys. heap (bubbleSort (map Num xs)) = map Num ys \<and> sorted ys \<and> mset ys = mset xs"
proof -
  from bubbleSort_sorts_aux [of xs] mset_map_Num_ex [of "heap (bubbleSort (map Num xs))" xs]
  obtain ys where ys: "heap (bubbleSort (map Num xs)) = map Num ys" "mset ys = mset xs"
    by blast
  with bubbleSort_sorts_aux [of xs] have "sorted ys" by (simp add: sorted_wrt_js_le)
  with ys show ?thesis by blast
qed

lemma ret_bubbleSort:
  "ret (bubbleSort arr) = \<lparr>result = heap (bubbleSort arr), colors = None\<rparr>"
  by (simp add: bubbleSort_def split_beta)

lemma mergeSort_default_result_length:
  "s \<in> set (yields (mergeSort_default arr)) \<Longrightarrow> length (result s) = length arr"
  "length (heap (mergeSort_default arr)) = length arr"
proof -
  from mergeSort_in_range [of arr "[]" arr "[]" 0 "int (length arr) - 1"]
  obtain mid' where h: "heap (mergeSort_default arr) = mid'"
    and m: "mset mid' = mset arr"
    and y: "\<forall>s\<in>set (yields (mergeSort_default arr)). length (result s) = length arr"
    by (auto simp: mergeSort_default_def)
  show "length (heap (mergeSort_default arr)) = length arr"
    using h m by (metis size_mset)
  show "length (result s) = length arr" if "s \<in> set (yields (mergeSort_default arr))"
    using y that by blast
qed

lemma bubbleSort_result_length:
  "s \<in> set (yields (bubbleSort arr)) \<Longrightarrow> length (result s) = length arr"
  "length (heap (bubbleSort arr)) = length arr"
  using bubble_outer_result_length [of s arr 0] length_bubble_outer [of arr 0]
  by (simp_all add: bubbleSort_def split_beta)

section \<open>The claims about the sorting generators and their driver\<close>

subsection \<open>Two runs, evaluated\<close>

lemma mergeSort_531_run:
  "mergeSort_default [Intg 5, Intg 3, Intg 1] =
   \<lparr>yields =
    [\<lparr>result = [Intg 5, Intg 3, Intg 1], colors = Some [0 \<mapsto> ''yellow'', 1 \<mapsto> ''blue'', 2 \<mapsto> ''green'']\<rparr>,
     \<lparr>result = [Intg 5, Intg 3, Intg 1], colors = Some [0 \<mapsto> ''blue'', 1 \<mapsto> ''green'']\<rparr>,
     \<lparr>result = [Intg 5, Intg 3, Intg 1], colors = Some [0 \<mapsto> ''green'']\<rparr>,
     \<lparr>result = [Intg 5, Intg 3, Intg 1], colors = Some [1 \<mapsto> ''green'']\<rparr>,
     \<lparr>result = [Intg 5, Intg 3, Intg 1], colors = Some [0 \<mapsto> ''blue'', 1 \<mapsto> ''red'']\<rparr>,
     \<lparr>result = [Intg 5, Intg 3, Intg 1], colors = Some [0 \<mapsto> ''red'']\<rparr>,
     \<lparr>result = [Intg 5, Intg 3, Intg 1], colors = Some [0 \<mapsto> ''yellow'']\<rparr>,
     \<lparr>result = [Intg 3, Intg 3, Intg 1], colors = Some [1 \<mapsto> ''yellow'']\<rparr>,
     \<lparr>result = [Intg 3, Intg 5, Intg 1], colors = Some [2 \<mapsto> ''green'']\<rparr>,
     \<lparr>result = [Intg 3, Intg 5, Intg 1], colors = Some [1 \<mapsto> ''blue'', 2 \<mapsto> ''red'']\<rparr>,
     \<lparr>result = [Intg 3, Intg 5, Intg 1], colors = Some [1 \<mapsto> ''blue'', 0 \<mapsto> ''red'']\<rparr>,
     \<lparr>result = [Intg 3, Intg 5, Intg 1], colors = Some [1 \<mapsto> ''red'']\<rparr>,
     \<lparr>result = [Intg 3, Intg 5, Intg 1], colors = Some [0 \<mapsto> ''yellow'']\<rparr>,
     \<lparr>result = [Intg 1, Intg 5, Intg 1], colors = Some [1 \<mapsto> ''yellow'']\<rparr>,
     \<lparr>result = [Intg 1, Intg 3, Intg 1], colors = Some [2 \<mapsto> ''yellow'']\<rparr>],
    ret = \<lparr>result = [Intg 1, Intg 3, Intg 5], colors = None\<rparr>,
    heap = [Intg 1, Intg 3, Intg 5]\<rparr>"
  by (simp add: mergeSort_default_def mergeSort.simps merge_def merge_while1.simps
      merge_while2.simps merge_while3.simps merge_for.simps push_def aget_def aset_def js_le_def
      Let_def)

lemma bubble_312_run:
  "bubbleSort [Intg 3, Intg 1, Intg 2] =
   \<lparr>yields =
    [\<lparr>result = [Intg 3, Intg 1, Intg 2], colors = Some [0 \<mapsto> ''yellow'', 1 \<mapsto> ''green'']\<rparr>,
     \<lparr>result = [Intg 1, Intg 3, Intg 2], colors = Some [0 \<mapsto> ''green'', 1 \<mapsto> ''yellow'']\<rparr>,
     \<lparr>result = [Intg 1, Intg 3, Intg 2], colors = Some [1 \<mapsto> ''yellow'', 2 \<mapsto> ''green'']\<rparr>,
     \<lparr>result = [Intg 1, Intg 2, Intg 3], colors = Some [1 \<mapsto> ''green'', 2 \<mapsto> ''yellow'']\<rparr>,
     \<lparr>result = [Intg 1, Intg 2, Intg 3], colors = Some [0 \<mapsto> ''yellow'', 1 \<mapsto> ''yellow'']\<rparr>],
    ret = \<lparr>result = [Intg 1, Intg 2, Intg 3], colors = None\<rparr>,
    heap = [Intg 1, Intg 2, Intg 3]\<rparr>"
  by (simp add: bubbleSort_def bubble_outer.simps bubble_inner.simps aget_def aset_def
        swap_adjacent_def js_gt_def Let_def)

lemma colors_yields_bubble_inner:
  "s \<in> set (fst (bubble_inner arr i j)) \<Longrightarrow> colors s \<noteq> None"
proof (induction arr i j rule: bubble_inner.induct)
  case (1 arr i j)
  show ?case
  proof (cases "int j < int (length arr) - int i - 1")
    case False
    with "1.prems" show ?thesis by (simp add: bubble_inner_unfold_stop)
  next
    case guard: True
    show ?thesis
    proof (cases "js_gt (aget arr (int j)) (aget arr (int j + 1))")
      case True
      with guard "1.prems" "1.IH"(1) [OF guard True refl refl refl] show ?thesis
        by (auto simp: bubble_inner_unfold_swap)
    next
      case False
      with guard "1.prems" "1.IH"(2) [OF guard False refl] show ?thesis
        by (auto simp: bubble_inner_unfold_keep)
    qed
  qed
qed

lemma colors_yields_bubble_outer:
  "s \<in> set (fst (bubble_outer arr i)) \<Longrightarrow> colors s \<noteq> None"
proof (induction arr i rule: bubble_outer.induct)
  case (1 arr i)
  show ?case
  proof (cases "i < length arr")
    case False
    with "1.prems" show ?thesis by (simp add: bubble_outer_unfold_stop)
  next
    case True
    from "1.prems" True consider "s \<in> set (fst (bubble_inner arr i 0))"
      | "s \<in> set (fst (bubble_outer (snd (bubble_inner arr i 0)) (i + 1)))"
      by (auto simp: bubble_outer_unfold_turn)
    then show ?thesis
    proof cases
      case 1 then show ?thesis by (rule colors_yields_bubble_inner)
    next
      case 2 then show ?thesis using "1.IH" [OF True refl prod.collapse] by simp
    qed
  qed
qed

lemma colors_yields_bubbleSort:
  "s \<in> set (yields (bubbleSort arr)) \<Longrightarrow> colors s \<noteq> None"
  using colors_yields_bubble_outer [of s arr 0] by (simp add: bubbleSort_def split_beta)

lemma colors_yields_mergeSort_default:
  "s \<in> set (yields (mergeSort_default arr)) \<Longrightarrow> colors s \<noteq> None"
  unfolding mergeSort_default_def by (rule colors_yields_mergeSort)

lemma ret_mergeSort_default:
  "ret (mergeSort_default arr) = \<lparr>result = heap (mergeSort_default arr), colors = None\<rparr>"
  unfolding mergeSort_default_def by (rule ret_mergeSort)

lemma run_to_completion:
  assumes "ret r = \<lparr>result = map Num ys, colors = None\<rparr>"
    and "\<And>s. s \<in> set (yields r) \<Longrightarrow> colors s \<noteq> None"
  shows "sortingState ((sort' ^^ length (yields r)) (App_init (generator_of r))) =
       \<lparr>it_value = Some \<lparr>result = map Num ys, colors = None\<rparr>, it_done = True\<rparr> \<and>
     (\<forall>k<length (yields r).
        sortingState ((sort' ^^ k) (App_init (generator_of r))) =
          \<lparr>it_value = Some (yields r ! k), it_done = False\<rparr>) \<and>
     ret r \<notin> set (yields r)"
proof -
  have "ret r \<notin> set (yields r)"
    using assms by force
  then show ?thesis
    by (simp add: sortingState_at_end sortingState_before_end assms(1))
qed

lemma upto_split_middle:
  "i \<le> middle + 1 \<Longrightarrow> middle \<le> j \<Longrightarrow> [i..middle] @ [middle + 1..j] = [i..j]"
proof (cases "i \<le> middle")
  case True
  assume "middle \<le> j"
  with True show ?thesis by (rule upto_split2 [symmetric])
next
  case False
  assume "i \<le> middle + 1"
  with False have "middle + 1 = i" by simp
  with False show ?thesis by simp
qed

lemma non_decreasing_sorted: "sorted ys \<Longrightarrow> non_decreasing (map Num ys)"
  unfolding non_decreasing_def
  by (induction ys) (auto simp: not_less)

text \<open>
  Claim C1, as the code has it. For every array \<open>xs\<close> of numbers none of which is
  \<^verbatim>\<open>NaN\<close> (empty, one element and duplicates included), a run of \<open>bubbleSort\<close> or of
  \<open>mergeSort\<close> with default bounds ends: after as many calls of the handler as the run
  has steps, the component holds the returned value with the done signal, every
  earlier state holds a yielded step without it, and the returned value is not one of
  the yielded steps. The returned value has no colours, and its result is a sorted
  list with the same elements, counted with multiplicity, as \<open>xs\<close>.
\<close>

theorem sorting_run_final_state:
  assumes "r = bubbleSort (map Num xs) \<or> r = mergeSort_default (map Num xs)"
  shows "\<exists>ys. sorted ys \<and> mset ys = mset xs \<and> non_decreasing (map Num ys) \<and>
     ret r = \<lparr>result = map Num ys, colors = None\<rparr> \<and>
     sortingState ((sort' ^^ length (yields r)) (App_init (generator_of r))) =
       \<lparr>it_value = Some \<lparr>result = map Num ys, colors = None\<rparr>, it_done = True\<rparr> \<and>
     (\<forall>k<length (yields r).
        sortingState ((sort' ^^ k) (App_init (generator_of r))) =
          \<lparr>it_value = Some (yields r ! k), it_done = False\<rparr>) \<and>
     ret r \<notin> set (yields r)"
proof -
  from assms obtain ys where ys: "sorted ys" "mset ys = mset xs"
    and r: "ret r = \<lparr>result = map Num ys, colors = None\<rparr>"
    and c: "\<And>s. s \<in> set (yields r) \<Longrightarrow> colors s \<noteq> None"
  proof
    assume b: "r = bubbleSort (map Num xs)"
    from bubbleSort_sorts [of xs] obtain ys where
      "heap r = map Num ys" "sorted ys" "mset ys = mset xs" unfolding b by blast
    then show ?thesis
      using that [of ys] colors_yields_bubbleSort [of _ "map Num xs"] ret_bubbleSort [of "map Num xs"]
      unfolding b by simp
  next
    assume m: "r = mergeSort_default (map Num xs)"
    from mergeSort_default_sorts [of xs] obtain ys where
      "heap r = map Num ys" "sorted ys" "mset ys = mset xs" unfolding m by blast
    then show ?thesis
      using that [of ys] colors_yields_mergeSort_default [of _ "map Num xs"]
        ret_mergeSort_default [of "map Num xs"]
      unfolding m by simp
  qed
  from run_to_completion [OF r c] ys r non_decreasing_sorted [OF ys(1)] show ?thesis by blast
qed

theorem sorting_run_final_state_witness:
  "\<exists>ys. sorted ys \<and> mset ys = mset [5, 3, 1 :: int] \<and>
     ret (mergeSort_default [Intg 5, Intg 3, Intg 1]) = \<lparr>result = map Num ys, colors = None\<rparr> \<and>
     sortingState ((sort' ^^ 15) (App_init (generator_of (mergeSort_default [Intg 5, Intg 3, Intg 1])))) =
       \<lparr>it_value = Some \<lparr>result = map Num ys, colors = None\<rparr>, it_done = True\<rparr>"
proof -
  have l: "length (yields (mergeSort_default [Intg 5, Intg 3, Intg 1])) = 15"
    by (simp add: mergeSort_531_run)
  from sorting_run_final_state [of "mergeSort_default (map Num [5, 3, 1])" "[5, 3, 1]"]
  show ?thesis unfolding l [symmetric] by auto
qed

text \<open>
  Claim C1 in the words of the specification, for every array of numbers, fails where
  \<^verbatim>\<open>NaN\<close> occurs, since both \<^verbatim>\<open>>\<close> and \<^verbatim>\<open><=\<close> are false of it. On
  \<open>[3, NaN, 1]\<close> no comparison of \<open>bubbleSort\<close> exchanges anything, and the value returned
  is \<open>[3, NaN, 1]\<close>, with 3 before 1. On \<open>[1, NaN, 2]\<close> \<open>mergeSort\<close> returns
  \<open>[2, NaN, 1]\<close>, with 2 before 1. Both values are returned without colours, and neither
  is non-decreasing.
\<close>

theorem sorting_NaN_not_sorted:
  "ret (bubbleSort [Intg 3, NaN, Intg 1]) = \<lparr>result = [Intg 3, NaN, Intg 1], colors = None\<rparr> \<and>
   js_gt (Intg 3) (Intg 1) \<and> \<not> non_decreasing [Intg 3, NaN, Intg 1] \<and>
   ret (mergeSort_default [Intg 1, NaN, Intg 2]) =
     \<lparr>result = [Intg 2, NaN, Intg 1], colors = None\<rparr> \<and>
   js_gt (Intg 2) (Intg 1) \<and> \<not> non_decreasing [Intg 2, NaN, Intg 1]"
proof -
  have b: "ret (bubbleSort [Intg 3, NaN, Intg 1]) =
      \<lparr>result = [Intg 3, NaN, Intg 1], colors = None\<rparr>"
    by (simp add: bubbleSort_def bubble_outer.simps bubble_inner.simps aget_def aset_def
        swap_adjacent_def js_gt_def Let_def)
  have m: "ret (mergeSort_default [Intg 1, NaN, Intg 2]) =
      \<lparr>result = [Intg 2, NaN, Intg 1], colors = None\<rparr>"
    by (simp add: mergeSort_default_def mergeSort.simps merge_def merge_while1.simps
        merge_while2.simps merge_while3.simps merge_for.simps push_def aget_def aset_def
        js_le_def Let_def)
  from b m show ?thesis by (simp add: non_decreasing_def)
qed

text \<open>
  Claim C2, as the code has it. On an array of length 0 or 1, \<open>bubbleSort\<close> yields no
  step and returns the array without colours. \<open>mergeSort\<close> yields exactly one step,
  the step that marks the bounds of the range (its first statement, placed before the
  test \<^verbatim>\<open>j <= i\<close>), and then returns the array without colours. On the empty array
  the marked indices are 0 and \<open>- 1\<close>.
\<close>

theorem short_input_steps:
  assumes "length arr \<le> 1"
  shows "yields (bubbleSort arr) = [] \<and>
     ret (bubbleSort arr) = \<lparr>result = arr, colors = None\<rparr> \<and>
     yields (mergeSort_default arr) =
       [\<lparr>result = arr,
         colors = Some [0 \<mapsto> ''yellow'', (int (length arr) - 1) div 2 \<mapsto> ''blue'',
                        int (length arr) - 1 \<mapsto> ''green'']\<rparr>] \<and>
     ret (mergeSort_default arr) = \<lparr>result = arr, colors = None\<rparr>"
proof -
  have inner: "bubble_inner arr 0 0 = ([], arr)"
    using assms by (simp add: bubble_inner_unfold_stop)
  have "bubble_outer arr 0 = ([], arr)"
  proof (cases "arr = []")
    case True
    then show ?thesis by (simp add: bubble_outer_unfold_stop)
  next
    case False
    with assms have "length arr = 1" by (cases arr) simp_all
    then show ?thesis
      by (simp add: bubble_outer_unfold_turn inner bubble_outer_unfold_stop)
  qed
  then have "yields (bubbleSort arr) = [] \<and> ret (bubbleSort arr) = \<lparr>result = arr, colors = None\<rparr>"
    by (simp add: bubbleSort_def)
  moreover have "int (length arr) - 1 \<le> 0" using assms by simp
  ultimately show ?thesis
    by (simp add: mergeSort_default_def mergeSort_stop)
qed

theorem short_input_steps_witness:
  "length [Intg 4] \<le> 1 \<and> yields (bubbleSort [Intg 4]) = [] \<and>
   length (yields (mergeSort_default [Intg 4])) = 1 \<and>
   ret (mergeSort_default [Intg 4]) = \<lparr>result = [Intg 4], colors = None\<rparr>"
  using short_input_steps [of "[Intg 4]"] by simp

text \<open>
  Claim C2 in the words of the specification, that no sorting generator yields a step
  on an array of length 0 or 1, fails for \<open>mergeSort\<close>: on \<open>[]\<close> and on \<open>[4]\<close> it yields
  one step.
\<close>

theorem mergeSort_empty_yields_one_step:
  "yields (mergeSort_default []) =
     [\<lparr>result = [], colors = Some [0 \<mapsto> ''yellow'', - 1 \<mapsto> ''blue'', - 1 \<mapsto> ''green'']\<rparr>] \<and>
   yields (mergeSort_default [Intg 4]) =
     [\<lparr>result = [Intg 4], colors = Some [0 \<mapsto> ''yellow'', 0 \<mapsto> ''blue'', 0 \<mapsto> ''green'']\<rparr>]"
  by (simp add: mergeSort_default_def mergeSort_stop)

text \<open>
  Claim C3. The steps of a call of \<open>mergeSort\<close> are, in this order: the step that
  marks the bounds and the middle of its range; then, when the range has more than
  one element, the steps of the call for the left half, the steps of the call for
  the right half, which starts from the array as the left call left it, and the steps
  of \<open>merge\<close> on the array as the right call left it. The steps of \<open>merge\<close> are one
  selected step for each index of the range, each index once, all showing the array
  unchanged, followed by one written step for each element, the step with number \<open>k\<close>
  showing the array with the first \<open>k\<close> merged elements written. No step is the
  returned value of a delegate: every step has colours and every returned value has
  none. The value that \<open>mergeSort\<close> returns is the array that \<open>merge\<close> left.
\<close>

theorem mergeSort_flattened:
  "(let middle = (j - i) div 2 + i;
        r1 = mergeSort arr i middle;
        r2 = mergeSort (heap r1) (middle + 1) j;
        r3 = merge (heap r2) i middle j
    in yields (mergeSort arr i j) =
         \<lparr>result = arr,
           colors = Some [i \<mapsto> ''yellow'', middle \<mapsto> ''blue'', j \<mapsto> ''green'']\<rparr> #
         (if j \<le> i then [] else yields r1 @ yields r2 @ yields r3) \<and>
       heap (mergeSort arr i j) = (if j \<le> i then arr else heap r3) \<and>
       (\<exists>idxs. mset idxs = mset (if j \<le> i then [i..middle] @ [middle + 1..j] else [i..j]) \<and>
          yields r3 =
            map (selected_step (heap r2) middle) idxs @
            map (written_step (heap r2) i (map (aget (heap r2)) idxs)) [0..<length idxs] \<and>
          heap r3 = write_prefix (heap r2) i (map (aget (heap r2)) idxs) (length idxs))) \<and>
   ret (mergeSort arr i j) = \<lparr>result = heap (mergeSort arr i j), colors = None\<rparr> \<and>
   (\<forall>s\<in>set (yields (mergeSort arr i j)). colors s \<noteq> None) \<and>
   mergeSort_default arr = mergeSort arr 0 (int (length arr) - 1)"
proof -
  define middle where "middle = (j - i) div 2 + i"
  define r1 where "r1 = mergeSort arr i middle"
  define r2 where "r2 = mergeSort (heap r1) (middle + 1) j"
  define r3 where "r3 = merge (heap r2) i middle j"
  have y: "yields (mergeSort arr i j) =
         \<lparr>result = arr,
           colors = Some [i \<mapsto> ''yellow'', middle \<mapsto> ''blue'', j \<mapsto> ''green'']\<rparr> #
         (if j \<le> i then [] else yields r1 @ yields r2 @ yields r3)"
    and h: "heap (mergeSort arr i j) = (if j \<le> i then arr else heap r3)"
    by (cases "j \<le> i"; simp add: mergeSort_stop mergeSort_split Let_def middle_def r1_def r2_def r3_def)+
  from merge_run [of "heap r2" i middle j]
  obtain idxs where m: "mset idxs = mset ([i..middle] @ [middle + 1..j])"
    and y3: "yields r3 =
            map (selected_step (heap r2) middle) idxs @
            map (written_step (heap r2) i (map (aget (heap r2)) idxs)) [0..<length idxs]"
    and h3: "heap r3 = write_prefix (heap r2) i (map (aget (heap r2)) idxs) (length idxs)"
    unfolding r3_def by blast
  have "[i..middle] @ [middle + 1..j] = [i..j]" if "\<not> j \<le> i"
    using that by (intro upto_split_middle) (simp_all add: middle_def)
  with m have m': "mset idxs = mset (if j \<le> i then [i..middle] @ [middle + 1..j] else [i..j])"
    by (cases "j \<le> i") (simp_all del: mset_append)
  have c: "\<forall>s\<in>set (yields (mergeSort arr i j)). colors s \<noteq> None"
    using colors_yields_mergeSort by blast
  have e: "\<exists>idxs. mset idxs = mset (if j \<le> i then [i..middle] @ [middle + 1..j] else [i..j]) \<and>
          yields r3 =
            map (selected_step (heap r2) middle) idxs @
            map (written_step (heap r2) i (map (aget (heap r2)) idxs)) [0..<length idxs] \<and>
          heap r3 = write_prefix (heap r2) i (map (aget (heap r2)) idxs) (length idxs)"
    using m' y3 h3 by blast
  show ?thesis
    unfolding Let_def middle_def [symmetric] r1_def [symmetric] r2_def [symmetric] r3_def [symmetric]
    by (rule conjI [OF conjI [OF y conjI [OF h e]]
          conjI [OF ret_mergeSort conjI [OF c mergeSort_default_def]]])
qed

theorem mergeSort_flattened_witness:
  "yields (mergeSort [Intg 5, Intg 3, Intg 1] 0 2) =
     \<lparr>result = [Intg 5, Intg 3, Intg 1],
       colors = Some [0 \<mapsto> ''yellow'', 1 \<mapsto> ''blue'', 2 \<mapsto> ''green'']\<rparr> #
     yields (mergeSort [Intg 5, Intg 3, Intg 1] 0 1) @
     yields (mergeSort [Intg 3, Intg 5, Intg 1] 2 2) @
     yields (merge [Intg 3, Intg 5, Intg 1] 0 1 2) \<and>
   yields (mergeSort_default [Intg 5, Intg 3, Intg 1]) ! 7 =
     \<lparr>result = [Intg 3, Intg 3, Intg 1], colors = Some [1 \<mapsto> ''yellow'']\<rparr>"
proof -
  have h1: "heap (mergeSort [Intg 5, Intg 3, Intg 1] 0 1) = [Intg 3, Intg 5, Intg 1]"
    by (simp add: mergeSort.simps merge_def merge_while1.simps merge_while2.simps
        merge_while3.simps merge_for.simps push_def aget_def aset_def js_le_def Let_def)
  have h2: "heap (mergeSort [Intg 3, Intg 5, Intg 1] 2 2) = [Intg 3, Intg 5, Intg 1]"
    by (simp add: mergeSort_stop)
  note t = mergeSort_flattened [where i = 0 and j = 2 and arr = "[Intg 5, Intg 3, Intg 1]",
      unfolded Let_def,
      THEN conjunct1, THEN conjunct1]
  then show ?thesis
    by (simp add: h1 h2 mergeSort_531_run)
qed

text \<open>
  Claim C5. Once the iterator result held by the component has the done signal, the
  handler returns the state it was given: the generator is not asked again, and result
  and colours stay as they are, however often the handler is called. The handler is a
  total function and has no branch that raises.
\<close>

theorem sort'_after_done:
  assumes "it_done (sortingState app)"
  shows "sort' app = app \<and> (sort' ^^ m) app = app"
  using assms sort'_done_fixed [of app m] by (simp add: sort'_def)

theorem sort'_after_done_witness:
  "it_done (sortingState ((sort' ^^ 5) (App_init (generator_of (bubbleSort [Intg 3, Intg 1, Intg 2]))))) \<and>
   (sort' ^^ 7) ((sort' ^^ 5) (App_init (generator_of (bubbleSort [Intg 3, Intg 1, Intg 2])))) =
     (sort' ^^ 5) (App_init (generator_of (bubbleSort [Intg 3, Intg 1, Intg 2]))) \<and>
   sortingState ((sort' ^^ 7) ((sort' ^^ 5) (App_init (generator_of (bubbleSort [Intg 3, Intg 1, Intg 2]))))) =
     \<lparr>it_value = Some \<lparr>result = [Intg 1, Intg 2, Intg 3], colors = None\<rparr>, it_done = True\<rparr>"
proof -
  have l: "length (yields (bubbleSort [Intg 3, Intg 1, Intg 2])) = 5"
    by (simp add: bubble_312_run)
  have d: "sortingState ((sort' ^^ 5) (App_init (generator_of (bubbleSort [Intg 3, Intg 1, Intg 2])))) =
     \<lparr>it_value = Some \<lparr>result = [Intg 1, Intg 2, Intg 3], colors = None\<rparr>, it_done = True\<rparr>"
    using sortingState_at_end [of "bubbleSort [Intg 3, Intg 1, Intg 2]"] unfolding l
    by (simp add: bubble_312_run)
  then have done5: "it_done (sortingState ((sort' ^^ 5) (App_init (generator_of (bubbleSort [Intg 3, Intg 1, Intg 2])))))"
    by simp
  from sort'_after_done [OF done5, of 7] d done5 show ?thesis by simp
qed

text \<open>
  Claim C8. In a run of \<open>bubbleSort\<close> or of \<open>mergeSort\<close> with default bounds, on any array,
  the result of every yielded step and of the returned value has the length of the
  array that the generator was created with. (An assignment past the end of a
  JavaScript array would lengthen it; no assignment of these runs is past the end.)
\<close>

theorem result_length_constant:
  assumes "r = bubbleSort arr \<or> r = mergeSort_default arr"
    and "s \<in> set (yields r) \<or> s = ret r"
  shows "length (result s) = length arr"
  using assms bubbleSort_result_length(1) [of s arr] bubbleSort_result_length(2) [of arr]
    mergeSort_default_result_length(1) [of s arr] mergeSort_default_result_length(2) [of arr]
    ret_bubbleSort [of arr] ret_mergeSort_default [of arr]
  by auto

theorem result_length_constant_witness:
  "yields (mergeSort_default [Intg 5, Intg 3, Intg 1]) ! 13 =
     \<lparr>result = [Intg 1, Intg 5, Intg 1], colors = Some [1 \<mapsto> ''yellow'']\<rparr> \<and>
   length (result (yields (mergeSort_default [Intg 5, Intg 3, Intg 1]) ! 13)) = length [Intg 5, Intg 3, Intg 1] \<and>
   length (result (ret (mergeSort_default [Intg 5, Intg 3, Intg 1]))) = length [Intg 5, Intg 3, Intg 1]"
proof -
  let ?r = "mergeSort_default [Intg 5, Intg 3, Intg 1]"
  have m: "yields ?r ! 13 \<in> set (yields ?r)"
    by (rule nth_mem) (simp add: mergeSort_531_run)
  have "length (result (yields ?r ! 13)) = length [Intg 5, Intg 3, Intg 1]"
    using result_length_constant [of ?r "[Intg 5, Intg 3, Intg 1]" "yields ?r ! 13"] m by blast
  moreover have "length (result (ret ?r)) = length [Intg 5, Intg 3, Intg 1]"
    using result_length_constant [of ?r "[Intg 5, Intg 3, Intg 1]" "ret ?r"] by blast
  moreover have "yields ?r ! 13 = \<lparr>result = [Intg 1, Intg 5, Intg 1], colors = Some [1 \<mapsto> ''yellow'']\<rparr>"
    by (simp add: mergeSort_531_run)
  ultimately show ?thesis by blast
qed

text \<open>
  Claim C9. Every run ends, and the number of its steps is determined by the array:
  \<open>mergeSort\<close> with default bounds yields \<open>mergeSort_count n\<close> steps on every array of
  length \<open>n\<close>, \<open>bubbleSort\<close> yields at most \<open>n (n - 1)\<close>, and after that many calls of the
  handler the component has the done signal. The generator functions are total
  functions of the array: their definitions come with termination proofs and draw on
  no source of randomness.
\<close>

theorem producers_terminate:
  "length (yields (mergeSort_default arr)) = mergeSort_count (length arr) \<and>
   length (yields (bubbleSort arr)) \<le> length arr * (length arr - 1) \<and>
   it_done (sortingState ((sort' ^^ mergeSort_count (length arr))
      (App_init (generator_of (mergeSort_default arr))))) \<and>
   it_done (sortingState ((sort' ^^ (length arr * (length arr - 1)))
      (App_init (generator_of (bubbleSort arr)))))"
proof -
  have m: "length (yields (mergeSort_default arr)) = mergeSort_count (length arr)"
    using length_yields_mergeSort [of arr 0 "int (length arr) - 1"]
    by (simp add: mergeSort_default_def)
  have b: "length (yields (bubbleSort arr)) \<le> length arr * (length arr - 1)"
    using bubble_outer_count [of arr 0] by (simp add: bubbleSort_def split_beta)
  have d: "it_done (sortingState ((sort' ^^ k) (App_init (generator_of r))))"
    if "length (yields r) \<le> k" for r k
    using that by (simp add: sort'_iterate app_after_def min_def)
  from m b d [of "mergeSort_default arr" "mergeSort_count (length arr)"]
    d [of "bubbleSort arr" "length arr * (length arr - 1)"]
  show ?thesis by simp
qed

theorem producers_terminate_witness:
  "length (yields (mergeSort_default [Intg 5, Intg 3, Intg 1])) = 15 \<and>
   length (yields (bubbleSort [Intg 5, Intg 3, Intg 1])) \<le> 6 \<and>
   it_done (sortingState ((sort' ^^ 15) (App_init (generator_of (mergeSort_default [Intg 5, Intg 3, Intg 1])))))"
proof -
  have c: "mergeSort_count 3 = 15" by (simp add: mergeSort_count.simps)
  have l: "length [Intg 5, Intg 3, Intg 1] = 3" by simp
  from producers_terminate [of "[Intg 5, Intg 3, Intg 1]"] show ?thesis
    unfolding l c by simp
qed

subsection \<open>Random arrays\<close>

lemma makeRandomArray_loop_eq:
  "makeRandomArray_loop rnd len i arr = arr @ map (\<lambda>k. Num (rnd k)) [i..<nat len]"
proof (induction rnd len i arr rule: makeRandomArray_loop.induct)
  case (1 rnd len i arr)
  show ?case
  proof (cases "int i < len")
    case True
    then have "[i..<nat len] = i # [i + 1..<nat len]"
      by (simp add: upt_conv_Cons)
    with True "1.IH" show ?thesis
      by (simp add: makeRandomArray_loop.simps [of rnd len i arr])
  next
    case False
    then have "[i..<nat len] = []" by simp
    with False show ?thesis
      by (simp add: makeRandomArray_loop.simps [of rnd len i arr])
  qed
qed

lemma makeRandomArray_eq: "makeRandomArray rnd len = map (\<lambda>k. Num (rnd k)) [0..<nat len]"
  by (simp add: makeRandomArray_def makeRandomArray_loop_eq)

lemma reset_eq:
  "reset rnd len app = App_init (generator_of (mergeSort_default (makeRandomArray rnd len)))"
  by (simp add: reset_def App_init_def)

text \<open>
  Claim C6, as the code has it. \<open>makeRandomArray\<close> checks nothing and raises nothing:
  for every length it returns the array of the first \<open>max length 0\<close> random numbers, so
  for a length of 0 or less it returns the empty array. \<open>reset\<close> then replaces the
  generator and the step of the component by those of a run on the new array, whatever
  the length and whatever the previous state.
\<close>

theorem makeRandomArray_never_rejects:
  "makeRandomArray rnd len = map (\<lambda>k. Num (rnd k)) [0..<nat len] \<and>
   length (makeRandomArray rnd len) = nat len \<and>
   (len \<le> 0 \<longrightarrow> makeRandomArray rnd len = []) \<and>
   reset rnd len app = App_init (generator_of (mergeSort_default (makeRandomArray rnd len)))"
  by (simp add: makeRandomArray_eq reset_eq)

theorem makeRandomArray_never_rejects_witness:
  "(- 2 :: int) \<le> 0 \<and> makeRandomArray constant_rnd (- 2) = [] \<and>
   makeRandomArray constant_rnd 3 = [Intg 500, Intg 500, Intg 500]"
  using makeRandomArray_never_rejects [of constant_rnd "- 2"]
    makeRandomArray_never_rejects [of constant_rnd 3]
  by (simp add: constant_rnd_def upt_rec)

text \<open>
  Claim C6 in the words of the specification, that a length of 0 or less is rejected
  and the previous array retained, fails at length 0: \<open>makeRandomArray\<close> returns the
  empty array, and after \<open>reset\<close> the component that showed \<open>[5, 3, 1]\<close> shows the first
  step of a run on the empty array.
\<close>

theorem makeRandomArray_zero_length:
  "makeRandomArray constant_rnd 0 = [] \<and>
   sortingState (reset constant_rnd 0
      (App_init (generator_of (mergeSort_default [Intg 5, Intg 3, Intg 1])))) =
     \<lparr>it_value = Some \<lparr>result = [],
        colors = Some [0 \<mapsto> ''yellow'', - 1 \<mapsto> ''blue'', - 1 \<mapsto> ''green'']\<rparr>,
      it_done = False\<rparr>"
  by (simp add: makeRandomArray_eq reset_eq App_init_def generator_of_def gen_next_def
      mergeSort_default_def mergeSort_stop)

subsection \<open>Selecting an algorithm\<close>










section \<open>The two versions of part 1 agree\<close>

lemma digit_not_space: "is_digit c \<Longrightarrow> \<not> is_space c"
  by (auto simp: is_digit_def is_space_def)

lemma digit_not_sign: "is_digit c \<Longrightarrow> c \<noteq> CHR ''-'' \<and> c \<noteq> CHR ''+'' \<and> c \<noteq> CHR ''x'' \<and> c \<noteq> CHR ''X''"
  by (auto simp: is_digit_def)

lemma digit_of_10: "is_digit c \<Longrightarrow> digit_of 10 c \<noteq> None"
  by (auto simp: is_digit_def digit_of_def Let_def)

lemma parseInt_number:
  assumes "is_number n"
  shows "\<exists>v. parseInt n = Some v"
proof -
  from assms obtain c cs where n: "n = c # cs" and c: "is_digit c" and cs: "list_all is_digit cs"
    by (cases n) (auto simp: is_number_def)
  have s1: "dropWhile is_space n = n"
    using c by (simp add: n digit_not_space)
  have nx: "take 2 n \<noteq> ''0x''" "take 2 n \<noteq> ''0X''"
    using cs digit_not_sign by (cases cs; auto simp: n)+
  have "\<forall>x\<in>set n. digit_of 10 x \<noteq> None"
    using c cs digit_of_10 by (auto simp: n list_all_iff)
  then have tw: "takeWhile (\<lambda>c. digit_of 10 c \<noteq> None) n = n"
    by (simp add: takeWhile_eq_all_conv)
  have sg: "(case n of [] \<Rightarrow> (1::int, n) | c # r \<Rightarrow> if c = CHR ''-'' then (- 1, r)
              else if c = CHR ''+'' then (1, r) else (1, n)) = (1, n)"
    using c digit_not_sign by (simp add: n)
  show ?thesis
    unfolding parseInt_def s1 Let_def sg using nx tw by (simp add: n)
qed

lemma infos_loop_wf:
  "numeric m \<Longrightarrow> list_all wf_ball balls \<Longrightarrow>
   numeric (infos_loop (map (\<lambda>x. js_split x '' '') balls) m) \<and>
   (within (infos_loop (map (\<lambda>x. js_split x '' '') balls) m) \<longleftrightarrow>
      within m \<and> checkReveal_loop balls)"
proof (induction balls arbitrary: m)
  case Nil
  then show ?case by simp
next
  case (Cons ball balls)
  from Cons.prems(2) obtain n c where sp: "js_split ball '' '' = [n, c]"
    and n: "is_number n" and c: "c = ''red'' \<or> c = ''green'' \<or> c = ''blue''"
    by (auto simp: wf_ball_def split: list.splits)
  from parseInt_number [OF n] obtain v where v: "parseInt n = Some v" by blast
  from Cons.prems(1) obtain r g b where
    m: "m ''red'' = Some (Some r)" "m ''green'' = Some (Some g)" "m ''blue'' = Some (Some b)"
    by (auto simp: numeric_def)
  define m' where "m' = m(c \<mapsto> math_max (get_prop m c) (Some v))"
  have step: "infos_loop (map (\<lambda>x. js_split x '' '') (ball # balls)) m =
      infos_loop (map (\<lambda>x. js_split x '' '') balls) m'"
    by (simp add: sp elem_def js_to_string_def v m'_def Let_def)
  have chk: "checkReveal_loop (ball # balls) \<longleftrightarrow>
      \<not> (c = ''red'' \<and> v > 12) \<and> \<not> (c = ''green'' \<and> v > 13) \<and> \<not> (c = ''blue'' \<and> v > 14) \<and>
      checkReveal_loop balls"
    by (simp add: sp elem_def js_to_string_def v Let_def num_gt_def)
  have num': "numeric m'"
    using c m by (elim disjE) (simp_all add: m'_def numeric_def get_prop_def math_max_def)
  have w': "within m' \<longleftrightarrow> within m \<and>
      \<not> (c = ''red'' \<and> v > 12) \<and> \<not> (c = ''green'' \<and> v > 13) \<and> \<not> (c = ''blue'' \<and> v > 14)"
    using c m
    by (elim disjE) (simp_all add: m'_def within_def get_prop_def math_max_def num_le_def not_less, blast+)
  from Cons.IH [OF num'] Cons.prems(2) show ?case
    unfolding step chk w' by auto
qed

lemma reveals_loop_wf:
  "numeric m \<Longrightarrow> list_all wf_reveal reveals \<Longrightarrow>
   numeric (reveals_loop reveals m) \<and>
   (within (reveals_loop reveals m) \<longleftrightarrow> within m \<and> list_all checkReveal reveals)"
proof (induction reveals arbitrary: m)
  case Nil
  then show ?case by simp
next
  case (Cons reveal reveals)
  from Cons.prems(2) have w1: "wf_reveal reveal" and wr: "list_all wf_reveal reveals"
    by simp_all
  from w1 have wb: "list_all wf_ball (js_split reveal '', '')"
    by (simp add: wf_reveal_def)
  let ?m' = "infos_loop (map (\<lambda>x. js_split x '' '') (js_split reveal '', '')) m"
  from infos_loop_wf [OF Cons.prems(1) wb]
  have n': "numeric ?m'" and w': "within ?m' \<longleftrightarrow> within m \<and> checkReveal reveal"
    by (simp_all add: checkReveal_def)
  from Cons.IH [OF n' wr] w' show ?case
    by (auto simp: Let_def)
qed

lemma possible_agree:
  assumes "list_all wf_reveal reveals"
  shows "within (reveals_loop reveals
           [''red'' \<mapsto> Some 0, ''blue'' \<mapsto> Some 0, ''green'' \<mapsto> Some 0]) \<longleftrightarrow>
         list_all checkReveal reveals"
proof -
  let ?m = "[''red'' \<mapsto> Some 0, ''blue'' \<mapsto> Some (0::int), ''green'' \<mapsto> Some 0]"
  have "numeric ?m" by (simp add: numeric_def)
  moreover have "within ?m" by (simp add: within_def get_prop_def num_le_def)
  ultimately show ?thesis using reveals_loop_wf [OF _ assms, of ?m] by simp
qed

lemma part1_loops_agree:
  "list_all wf_game games \<Longrightarrow>
   part1_first_loop games sum_acc = part1_second_loop games sum_acc"
proof (induction games arbitrary: sum_acc)
  case Nil
  show ?case by simp
next
  case (Cons game games)
  from Cons.prems have w1: "wf_game game" and wg: "list_all wf_game games"
    by simp_all
  from w1 obtain gameText infoText where
    sp: "js_split game '': '' = [gameText, infoText]"
    and wr: "list_all wf_reveal (js_split infoText ''; '')"
    by (auto simp: wf_game_def split: list.splits)
  note p = possible_agree [OF wr, unfolded within_def]
  show ?case
    using Cons.IH [OF wg] p
    by (simp add: sp elem_def Let_def)
qed

lemma part1_agree_well_formed:
  "well_formed input \<Longrightarrow> part1_first input = part1_second input"
  by (simp add: well_formed_def part1_first_def part1_second_def part1_loops_agree)

lemma split_scan_piece:
  "c \<notin> set p \<Longrightarrow>
   split_scan (c # cs) cur (p @ c # cs @ rest) = (cur @ p) # split_scan (c # cs) [] rest"
proof (induction p arbitrary: cur)
  case Nil
  show ?case by (subst split_scan.simps) simp
next
  case (Cons x p)
  then have "x \<noteq> c" "c \<notin> set p" by auto
  then show ?case
    using Cons.IH [of "cur @ [x]"] by (subst split_scan.simps) simp
qed

lemma split_scan_last:
  "c \<notin> set p \<Longrightarrow> split_scan (c # cs) cur p = [cur @ p]"
proof (induction p arbitrary: cur)
  case Nil
  show ?case by (subst split_scan.simps) simp
next
  case (Cons x p)
  then have "x \<noteq> c" "c \<notin> set p" by auto
  then show ?case
    using Cons.IH [of "cur @ [x]"] by (subst split_scan.simps) simp
qed

lemma js_split_join:
  "ps \<noteq> [] \<Longrightarrow> \<forall>p\<in>set ps. c \<notin> set p \<Longrightarrow> js_split (join (c # cs) ps) (c # cs) = ps"
proof (induction "c # cs" ps rule: join.induct)
  case 1
  then show ?case by simp
next
  case (2 p)
  then show ?case by (simp add: js_split_def split_scan_last)
next
  case (3 p q ps)
  then have "js_split (join (c # cs) (q # ps)) (c # cs) = q # ps" by simp
  with 3 show ?case
    by (simp add: js_split_def split_scan_piece)
qed

lemma set_join: "set (join sep ps) \<subseteq> set sep \<union> \<Union> (set ` set ps)"
  by (induction sep ps rule: join.induct) auto

lemma number_chars:
  "is_number n \<Longrightarrow> ch \<in> set n \<Longrightarrow> is_digit ch"
  by (auto simp: is_number_def list_all_iff)

lemma digit_not_separator:
  "is_digit ch \<Longrightarrow>
   ch \<noteq> CHR '' '' \<and> ch \<noteq> CHR '','' \<and> ch \<noteq> CHR '';'' \<and> ch \<noteq> CHR '':'' \<and> ch \<noteq> CHR 0x0A"
  by (auto simp: is_digit_def)

lemma colour_name_chars:
  "ch \<in> set (colour_name c) \<Longrightarrow>
   ch \<noteq> CHR '' '' \<and> ch \<noteq> CHR '','' \<and> ch \<noteq> CHR '';'' \<and> ch \<noteq> CHR '':'' \<and> ch \<noteq> CHR 0x0A"
  by (cases c) auto

lemma render_ball_chars:
  assumes "is_number (fst b)" "ch \<in> set (render_ball b)"
  shows "ch \<noteq> CHR '','' \<and> ch \<noteq> CHR '';'' \<and> ch \<noteq> CHR '':'' \<and> ch \<noteq> CHR 0x0A"
proof -
  from assms(2) consider "ch \<in> set (fst b)" | "ch = CHR '' ''" | "ch \<in> set (colour_name (snd b))"
    by (auto simp: render_ball_def)
  then show ?thesis
  proof cases
    case 1
    then show ?thesis using number_chars [OF assms(1)] digit_not_separator by blast
  next
    case 2
    then show ?thesis by simp
  next
    case 3
    then show ?thesis using colour_name_chars by blast
  qed
qed

lemma render_reveal_chars:
  assumes "list_all (\<lambda>b. is_number (fst b)) balls" "ch \<in> set (render_reveal balls)"
  shows "ch \<noteq> CHR '';'' \<and> ch \<noteq> CHR '':'' \<and> ch \<noteq> CHR 0x0A"
proof -
  from assms(2) set_join [of "'', ''" "map render_ball balls"]
  consider "ch \<in> set '', ''" | b where "b \<in> set balls" "ch \<in> set (render_ball b)"
    by (auto simp: render_reveal_def)
  then show ?thesis
  proof cases
    case 1
    then show ?thesis by auto
  next
    case 2
    with assms(1) have "is_number (fst b)" by (simp add: list_all_iff)
    from render_ball_chars [OF this 2(2)] show ?thesis by simp
  qed
qed

lemma wf_ball_render:
  assumes "is_number (fst b)"
  shows "wf_ball (render_ball b)"
proof -
  have 1: "CHR '' '' \<notin> set (fst b)"
    using number_chars [OF assms] digit_not_separator by blast
  have 2: "CHR '' '' \<notin> set (colour_name (snd b))"
    using colour_name_chars by blast
  have "js_split (render_ball b) '' '' = [fst b, colour_name (snd b)]"
    using split_scan_piece [OF 1, of "[]" "[]" "colour_name (snd b)"]
      split_scan_last [OF 2, of "[]" "[]"]
    by (simp add: js_split_def render_ball_def)
  moreover have "colour_name (snd b) = ''red'' \<or> colour_name (snd b) = ''green'' \<or>
      colour_name (snd b) = ''blue''"
    by (cases "snd b") simp_all
  ultimately show ?thesis using assms by (simp add: wf_ball_def)
qed

lemma wf_reveal_render:
  assumes "balls \<noteq> []" "list_all (\<lambda>b. is_number (fst b)) balls"
  shows "wf_reveal (render_reveal balls)"
proof -
  have "\<forall>p\<in>set (map render_ball balls). CHR '','' \<notin> set p"
    using assms(2) render_ball_chars by (fastforce simp: list_all_iff)
  with assms(1) have "js_split (render_reveal balls) '', '' = map render_ball balls"
    unfolding render_reveal_def by (intro js_split_join) simp_all
  then show ?thesis
    using assms(2) wf_ball_render by (simp add: wf_reveal_def list_all_iff)
qed

lemma wf_game_render:
  assumes "is_number (fst g)" "snd g \<noteq> []"
    "list_all (\<lambda>balls. balls \<noteq> [] \<and> list_all (\<lambda>b. is_number (fst b)) balls) (snd g)"
  shows "wf_game (render_game g)"
    and "CHR 0x0A \<notin> set (render_game g)"
proof -
  define info where "info = join ''; '' (map render_reveal (snd g))"
  have info_chars: "ch \<noteq> CHR '':'' \<and> ch \<noteq> CHR 0x0A" if "ch \<in> set info" for ch
  proof -
    from that set_join [of "''; ''" "map render_reveal (snd g)"]
    consider "ch \<in> set ''; ''" | balls where "balls \<in> set (snd g)" "ch \<in> set (render_reveal balls)"
      by (auto simp: info_def)
    then show ?thesis
    proof cases
      case 1
      then show ?thesis by auto
    next
      case 2
      with assms(3) have "list_all (\<lambda>b. is_number (fst b)) balls" by (simp add: list_all_iff)
      from render_reveal_chars [OF this 2(2)] show ?thesis by simp
    qed
  qed
  have head_chars: "ch \<noteq> CHR '':'' \<and> ch \<noteq> CHR 0x0A" if "ch \<in> set (''Game '' @ fst g)" for ch
  proof -
    from that consider "ch \<in> set ''Game ''" | "ch \<in> set (fst g)" by auto
    then show ?thesis
    proof cases
      case 1
      then show ?thesis by auto
    next
      case 2
      then show ?thesis using number_chars [OF assms(1)] digit_not_separator by blast
    qed
  qed
  have 1: "CHR '':'' \<notin> set (''Game '' @ fst g)" using head_chars by blast
  have 2: "CHR '':'' \<notin> set info" using info_chars by blast
  have r: "render_game g = (''Game '' @ fst g) @ CHR '':'' # '' '' @ info"
    by (simp add: render_game_def info_def)
  have sp: "js_split (render_game g) '': '' = [''Game '' @ fst g, info]"
    unfolding r js_split_def
    using split_scan_piece [OF 1, of "'' ''" "[]" info] split_scan_last [OF 2, of "'' ''" "[]"]
    by simp
  have "\<forall>p\<in>set (map render_reveal (snd g)). CHR '';'' \<notin> set p"
    using assms(3) render_reveal_chars by (fastforce simp: list_all_iff)
  with assms(2) have "js_split info ''; '' = map render_reveal (snd g)"
    unfolding info_def by (intro js_split_join) simp_all
  moreover have "list_all wf_reveal (map render_reveal (snd g))"
    using assms(3) wf_reveal_render by (simp add: list_all_iff)
  ultimately show "wf_game (render_game g)"
    using assms(1) by (simp add: wf_game_def sp)
  show "CHR 0x0A \<notin> set (render_game g)"
    unfolding r using head_chars info_chars by auto
qed

lemma well_formed_render:
  assumes "grammatical games"
  shows "well_formed (render_input games)"
proof -
  from assms have ne: "games \<noteq> []"
    and g: "\<forall>g\<in>set games. is_number (fst g) \<and> snd g \<noteq> [] \<and>
       list_all (\<lambda>balls. balls \<noteq> [] \<and> list_all (\<lambda>b. is_number (fst b)) balls) (snd g)"
    by (simp_all add: grammatical_def list_all_iff)
  have "\<forall>p\<in>set (map render_game games). CHR 0x0A \<notin> set p"
    using g wf_game_render(2) by auto
  with ne have "js_split (render_input games) [CHR 0x0A] = map render_game games"
    unfolding render_input_def by (intro js_split_join) simp_all
  moreover have "list_all wf_game (map render_game games)"
    using g wf_game_render(1) by (simp add: list_all_iff)
  ultimately show ?thesis by (simp add: well_formed_def)
qed

text \<open>
  Claim C10. On every well-formed puzzle input the first version of \<^verbatim>\<open>part1\<close>, which
  accepts a game when \<^verbatim>\<open>checkReveal\<close> holds of each of its reveals, and the second
  version, which keeps the largest count of each colour in \<^verbatim>\<open>leastNumOfBalls\<close> and
  compares the three with 12, 13 and 14, return the same value.
  Well-formed is meant in both readings: the input splits into lines, games, reveals
  and balls of the right form, or it is the text of a list of games.
\<close>

theorem part1_versions_agree:
  "(well_formed input \<longrightarrow> part1_first input = part1_second input) \<and>
   (grammatical games \<longrightarrow>
      well_formed (render_input games) \<and>
      part1_first (render_input games) = part1_second (render_input games))"
  using part1_agree_well_formed well_formed_render by blast

theorem part1_versions_agree_witness:
  "well_formed example_input \<and> part1_first example_input = part1_second example_input \<and>
   part1_second example_input = Inr (Some 8) \<and>
   grammatical [(''7'', [[(''3'', Blue), (''14'', Red)], [(''2'', Green)]])] \<and>
   render_input [(''7'', [[(''3'', Blue), (''14'', Red)], [(''2'', Green)]])] =
     ''Game 7: 3 blue, 14 red; 2 green'' \<and>
   part1_first ''Game 7: 3 blue, 14 red; 2 green'' = part1_second ''Game 7: 3 blue, 14 red; 2 green''"
proof -
  have w: "well_formed example_input" by code_simp
  have v: "part1_first example_input = Inr (Some 8)" by code_simp
  have g: "grammatical [(''7'', [[(''3'', Blue), (''14'', Red)], [(''2'', Green)]])]"
    by (simp add: grammatical_def is_number_def is_digit_def)
  have r: "render_input [(''7'', [[(''3'', Blue), (''14'', Red)], [(''2'', Green)]])] =
     ''Game 7: 3 blue, 14 red; 2 green''"
    by (simp add: render_input_def render_game_def render_reveal_def render_ball_def)
  from part1_versions_agree [of example_input
      "[(''7'', [[(''3'', Blue), (''14'', Red)], [(''2'', Green)]])]"] w v g r
  show ?thesis by simp
qed

text \<open>
  Well-formedness matters: a count that is not a number makes \<^verbatim>\<open>parseInt\<close> return
  \<^verbatim>\<open>NaN\<close>, which passes \<^verbatim>\<open>num > 12\<close> in the first version and fails
  \<^verbatim>\<open>red <= 12\<close> in the second.
\<close>

lemma part1_versions_differ_on_NaN:
  "part1_first ''Game 1: x red'' = Inr (Some 1) \<and> part1_second ''Game 1: x red'' = Inr (Some 0)"
  by code_simp

end
